theory Spec2Isabelle
  imports Complex_Main "HOL-Library.AList"
begin

section \<open>Data model of \<open>pipeline/hybrid_search.py\<close>\<close>

text \<open>
  Python floats are modelled as \<^typ>\<open>real\<close> (idealised arithmetic, no rounding), Python
  \<open>int\<close> as \<^typ>\<open>int\<close>, \<open>str\<close> as \<^typ>\<open>string\<close>. A metadata dictionary is opaque to the
  retrieval code and is kept as an association list. A raised exception is a value of
  type \<open>error\<close>, and a function that can raise returns \<open>error + 'a\<close>.
\<close>

type_synonym metadata = "(string \<times> string) list"

text \<open>One row of a ranking list: the tuple \<open>(content, score, metadata)\<close>.\<close>

type_synonym hit = "string \<times> real \<times> metadata"

record SearchResult =
  content :: string
  metadata :: metadata
  score :: real
  source :: string

datatype error =
    ZeroDivisionError
  | ValueError
  | KeyError
  | IndexError
  | AttributeError
  | SubsystemError string

subsection \<open>Python dictionaries and slices\<close>

text \<open>
  A \<open>dict\<close> keeps its keys in insertion order; assigning to a key that is present
  replaces the value in place, assigning to a new key appends it. That is
  \<^const>\<open>AList.update\<close> on an association list.
\<close>

type_synonym ('k, 'v) dict = "('k \<times> 'v) list"

definition dict_set :: "('k, 'v) dict \<Rightarrow> 'k \<Rightarrow> 'v \<Rightarrow> ('k, 'v) dict" where
  "dict_set d key v = AList.update key v d"

text \<open>\<open>d.get(key, default)\<close>\<close>

definition dict_get :: "('k, 'v) dict \<Rightarrow> 'k \<Rightarrow> 'v \<Rightarrow> 'v" where
  "dict_get d key dflt = (case map_of d key of None \<Rightarrow> dflt | Some v \<Rightarrow> v)"

text \<open>\<open>d[key]\<close>, which raises \<open>KeyError\<close> on a missing key.\<close>

definition dict_lookup :: "('k, 'v) dict \<Rightarrow> 'k \<Rightarrow> error + 'v" where
  "dict_lookup d key = (case map_of d key of None \<Rightarrow> Inl KeyError | Some v \<Rightarrow> Inr v)"

text \<open>\<open>xs[:stop]\<close>: a negative \<open>stop\<close> counts from the end.\<close>

definition slice_to :: "int \<Rightarrow> 'a list \<Rightarrow> 'a list" where
  "slice_to stop xs =
     (if stop < 0 then take (nat (int (length xs) + stop)) xs else take (nat stop) xs)"

text \<open>\<open>xs[start:]\<close>: a negative \<open>start\<close> counts from the end.\<close>

definition slice_from :: "int \<Rightarrow> 'a list \<Rightarrow> 'a list" where
  "slice_from start xs =
     (if start < 0 then drop (nat (int (length xs) + start)) xs else drop (nat start) xs)"

text \<open>
  \<open>sorted(xs, key=f, reverse=True)\<close>: CPython reverses the list, sorts it with its stable
  sort and reverses the result, so that equal keys keep their original order.
  \<^const>\<open>sort_key\<close> is a stable insertion sort.
\<close>

definition sorted_reverse :: "('a \<Rightarrow> real) \<Rightarrow> 'a list \<Rightarrow> 'a list" where
  "sorted_reverse f xs = rev (sort_key f (rev xs))"

text \<open>A list comprehension whose body can raise: the first exception ends it.\<close>

fun collect :: "('a \<Rightarrow> error + 'b) \<Rightarrow> 'a list \<Rightarrow> error + 'b list" where
  "collect f [] = Inr []"
| "collect f (x # xs) =
     (case f x of
        Inl e \<Rightarrow> Inl e
      | Inr y \<Rightarrow> (case collect f xs of Inl e \<Rightarrow> Inl e | Inr ys \<Rightarrow> Inr (y # ys)))"

section \<open>Reciprocal rank fusion\<close>

text \<open>
  The three dictionaries of \<open>_reciprocal_rank_fusion\<close>: \<open>scores\<close>, \<open>content_map\<close> and
  \<open>metadata_map\<close>, all keyed by \<open>hash(content)\<close>. Python's builtin \<open>hash\<close> is not part of
  the repository: it is the parameter \<open>h\<close>, and the key type is left open, since the
  fusion only compares keys for equality.
\<close>

type_synonym 'k rrf_state = "('k, real) dict \<times> ('k, string) dict \<times> ('k, metadata) dict"

text \<open>
  One of the two loops \<open>for rank, (content, score, metadata) in enumerate(results)\<close>,
  with the list's weight \<open>w\<close>. \<open>1 / (k + rank + 1)\<close> raises when the integer is zero.
\<close>

fun score_results ::
  "(string \<Rightarrow> 'k) \<Rightarrow> real \<Rightarrow> int \<Rightarrow> nat \<Rightarrow> hit list \<Rightarrow> 'k rrf_state \<Rightarrow> error + 'k rrf_state"
where
  "score_results h w k rank [] st = Inr st"
| "score_results h w k rank ((c, s, m) # rest) (scores, content_map, metadata_map) =
     (if k + int rank + 1 = 0 then Inl ZeroDivisionError
      else
        let content_key = h c;
            rrf_score = w * (1 / real_of_int (k + int rank + 1))
        in score_results h w k (Suc rank) rest
             (dict_set scores content_key (dict_get scores content_key 0 + rrf_score),
              dict_set content_map content_key c,
              dict_set metadata_map content_key m))"

text \<open>The body of the final comprehension, for one key.\<close>

definition make_result :: "'k rrf_state \<Rightarrow> 'k \<Rightarrow> error + SearchResult" where
  "make_result st key =
     (case st of (scores, content_map, metadata_map) \<Rightarrow>
       (case dict_lookup content_map key of
          Inl e \<Rightarrow> Inl e
        | Inr c \<Rightarrow>
           (case dict_lookup metadata_map key of
              Inl e \<Rightarrow> Inl e
            | Inr m \<Rightarrow>
               (case dict_lookup scores key of
                  Inl e \<Rightarrow> Inl e
                | Inr s \<Rightarrow>
                    Inr \<lparr>content = c, metadata = m, score = s, source = ''hybrid''\<rparr>))))"

text \<open>
  \<open>sorted(scores.keys(), key=lambda x: scores[x], reverse=True)\<close>: the keys are the
  dictionary's own, so the sort key of an entry is its value.
\<close>

definition sorted_keys :: "('k, real) dict \<Rightarrow> 'k list" where
  "sorted_keys scores = map fst (sorted_reverse snd scores)"

text \<open>
  \<open>HybridSearch._reciprocal_rank_fusion\<close>; \<open>wv\<close> and \<open>wb\<close> are \<open>self.vector_weight\<close> and
  \<open>self.bm25_weight\<close>, \<open>k\<close> is the RRF constant (60 at the only call). The scores are
  exact reals here; \<open>reciprocal_rank_fusion_fl\<close> below leaves their rounding open, and
  what depends on the rounding, the order of documents whose scores are close, is stated
  on it.
\<close>

definition reciprocal_rank_fusion ::
  "(string \<Rightarrow> 'k) \<Rightarrow> real \<Rightarrow> real \<Rightarrow> hit list \<Rightarrow> hit list \<Rightarrow> int \<Rightarrow> int
     \<Rightarrow> error + SearchResult list"
where
  "reciprocal_rank_fusion h wv wb vector_results bm25_results top_k k =
     (case score_results h wv k 0 vector_results ([], [], []) of
        Inl e \<Rightarrow> Inl e
      | Inr st1 \<Rightarrow>
         (case score_results h wb k 0 bm25_results st1 of
            Inl e \<Rightarrow> Inl e
          | Inr st2 \<Rightarrow>
              collect (make_result st2) (slice_to top_k (sorted_keys (fst st2)))))"

subsection \<open>The fusion on floating-point numbers\<close>

text \<open>
  The weights and the scores of the fusion are Python floats, and the sort compares the
  floats the loops have computed. The fusion is therefore given a second time, with the
  float arithmetic as a parameter: the float that the \<open>int\<close> default \<open>0\<close> of
  \<open>scores.get(content_key, 0)\<close> becomes in the sum, the sum and the product of two
  floats, the quotient \<open>1 / n\<close> of the ints \<open>1\<close> and \<open>n\<close>, and the real number that a float
  stands for, by which two floats compare (with finite weights of ordinary size the
  scores are finite, and none is a \<open>NaN\<close>). Nothing is assumed of these operations: the
  arithmetic of IEEE doubles is one value of the parameter, and the exact arithmetic of
  \<open>reciprocal_rank_fusion\<close> is another, \<open>exact_arith\<close>.
\<close>

record 'f float_ops =
  fl_zero :: 'f
  fl_add :: "'f \<Rightarrow> 'f \<Rightarrow> 'f"
  fl_mul :: "'f \<Rightarrow> 'f \<Rightarrow> 'f"
  fl_recip :: "int \<Rightarrow> 'f"
  fl_value :: "'f \<Rightarrow> real"

type_synonym ('k, 'f) fl_state = "('k, 'f) dict \<times> ('k, string) dict \<times> ('k, metadata) dict"

text \<open>The two loops, as \<open>score_results\<close> with the arithmetic \<open>ar\<close>.\<close>

fun score_results_fl ::
  "'f float_ops \<Rightarrow> (string \<Rightarrow> 'k) \<Rightarrow> 'f \<Rightarrow> int \<Rightarrow> nat \<Rightarrow> hit list \<Rightarrow> ('k, 'f) fl_state
     \<Rightarrow> error + ('k, 'f) fl_state"
where
  "score_results_fl ar h w k rank [] st = Inr st"
| "score_results_fl ar h w k rank ((c, s, m) # rest) (scores, content_map, metadata_map) =
     (if k + int rank + 1 = 0 then Inl ZeroDivisionError
      else
        let content_key = h c;
            rrf_score = fl_mul ar w (fl_recip ar (k + int rank + 1))
        in score_results_fl ar h w k (Suc rank) rest
             (dict_set scores content_key
                (fl_add ar (dict_get scores content_key (fl_zero ar)) rrf_score),
              dict_set content_map content_key c,
              dict_set metadata_map content_key m))"

text \<open>
  The body of the final comprehension; the \<open>score\<close> of the result is the number the float
  stands for.
\<close>

definition make_result_fl :: "'f float_ops \<Rightarrow> ('k, 'f) fl_state \<Rightarrow> 'k \<Rightarrow> error + SearchResult" where
  "make_result_fl ar st key =
     (case st of (scores, content_map, metadata_map) \<Rightarrow>
       (case dict_lookup content_map key of
          Inl e \<Rightarrow> Inl e
        | Inr c \<Rightarrow>
           (case dict_lookup metadata_map key of
              Inl e \<Rightarrow> Inl e
            | Inr m \<Rightarrow>
               (case dict_lookup scores key of
                  Inl e \<Rightarrow> Inl e
                | Inr s \<Rightarrow>
                    Inr \<lparr>content = c, metadata = m, score = fl_value ar s,
                         source = ''hybrid''\<rparr>))))"

text \<open>The sort of the keys, by the floats of the dictionary.\<close>

definition sorted_keys_fl :: "'f float_ops \<Rightarrow> ('k, 'f) dict \<Rightarrow> 'k list" where
  "sorted_keys_fl ar scores = map fst (sorted_reverse (\<lambda>entry. fl_value ar (snd entry)) scores)"

text \<open>\<open>HybridSearch._reciprocal_rank_fusion\<close> with the arithmetic \<open>ar\<close>.\<close>

definition reciprocal_rank_fusion_fl ::
  "'f float_ops \<Rightarrow> (string \<Rightarrow> 'k) \<Rightarrow> 'f \<Rightarrow> 'f \<Rightarrow> hit list \<Rightarrow> hit list \<Rightarrow> int \<Rightarrow> int
     \<Rightarrow> error + SearchResult list"
where
  "reciprocal_rank_fusion_fl ar h wv wb vector_results bm25_results top_k k =
     (case score_results_fl ar h wv k 0 vector_results ([], [], []) of
        Inl e \<Rightarrow> Inl e
      | Inr st1 \<Rightarrow>
         (case score_results_fl ar h wb k 0 bm25_results st1 of
            Inl e \<Rightarrow> Inl e
          | Inr st2 \<Rightarrow>
              collect (make_result_fl ar st2) (slice_to top_k (sorted_keys_fl ar (fst st2)))))"

text \<open>The arithmetic without rounding.\<close>

definition exact_arith :: "real float_ops" where
  "exact_arith =
     \<lparr>fl_zero = 0, fl_add = (\<lambda>x y. x + y), fl_mul = (\<lambda>x y. x * y),
      fl_recip = (\<lambda>n. 1 / real_of_int n), fl_value = (\<lambda>x. x)\<rparr>"

section \<open>The lexical index \<open>BM25Okapi\<close>\<close>

text \<open>
  The fields of a \<open>BM25Okapi\<close> object. The parameters \<open>k1\<close> and \<open>b\<close> are the fields
  \<open>k1_param\<close> and \<open>b_param\<close>; a \<open>Counter\<close> is a dictionary from terms to counts.
\<close>

record BM25Okapi =
  corpus :: "string list list"
  corpus_size :: nat
  avg_doc_len :: real
  k1_param :: real
  b_param :: real
  doc_freqs :: "(string, nat) dict list"
  term_doc_freq :: "(string, nat) dict"

text \<open>\<open>d[term] = d.get(term, 0) + 1\<close>\<close>

definition increment :: "(string, nat) dict \<Rightarrow> string \<Rightarrow> (string, nat) dict" where
  "increment d term = dict_set d term (dict_get d term 0 + 1)"

text \<open>\<open>Counter(doc)\<close>: one pass over the tokens, each adding one to its count.\<close>

definition Counter :: "string list \<Rightarrow> (string, nat) dict" where
  "Counter doc = fold (\<lambda>term d. increment d term) doc []"

text \<open>
  The loop \<open>for term in freq: self.term_doc_freq[term] = self.term_doc_freq.get(term, 0) + 1\<close>
  of the constructor, for one document's counter.
\<close>

definition count_doc_terms :: "(string, nat) dict \<Rightarrow> (string, nat) dict \<Rightarrow> (string, nat) dict" where
  "count_doc_terms freq tdf = fold (\<lambda>term d. increment d term) (map fst freq) tdf"

text \<open>\<open>BM25Okapi.__init__(corpus, k1, b)\<close>\<close>

definition BM25Okapi_init :: "string list list \<Rightarrow> real \<Rightarrow> real \<Rightarrow> BM25Okapi" where
  "BM25Okapi_init docs k1 b =
     \<lparr>corpus = docs,
      corpus_size = length docs,
      avg_doc_len =
        (if length docs \<noteq> 0
         then real (sum_list (map length docs)) / real (length docs) else 0),
      k1_param = k1,
      b_param = b,
      doc_freqs = map Counter docs,
      term_doc_freq = fold (\<lambda>doc tdf. count_doc_terms (Counter doc) tdf) docs []\<rparr>"

text \<open>
  The inner loop of \<open>get_scores\<close>, \<open>for idx, freq in enumerate(self.doc_freqs)\<close>, for one
  query term with its \<open>idf\<close>. Reading \<open>self.corpus[idx]\<close> or \<open>scores[idx]\<close> out of range
  and dividing by a zero \<open>denom\<close> raise; the augmented assignment reads \<open>scores[idx]\<close>
  before it divides.
\<close>

fun score_docs ::
  "BM25Okapi \<Rightarrow> string \<Rightarrow> real \<Rightarrow> nat \<Rightarrow> (string, nat) dict list \<Rightarrow> real list
     \<Rightarrow> error + real list"
where
  "score_docs bm term idf idx [] scores = Inr scores"
| "score_docs bm term idf idx (freq # rest) scores =
     (let term_freq = dict_get freq term 0 in
      if term_freq = 0 then score_docs bm term idf (Suc idx) rest scores
      else if length (corpus bm) \<le> idx then Inl IndexError
      else
        let doc_len = length (corpus bm ! idx);
            denom =
              (if avg_doc_len bm \<noteq> 0
               then real term_freq
                      + k1_param bm
                        * (1 - b_param bm + b_param bm * real doc_len / avg_doc_len bm)
               else real term_freq + k1_param bm)
        in if length scores \<le> idx then Inl IndexError
           else if denom = 0 then Inl ZeroDivisionError
           else score_docs bm term idf (Suc idx) rest
                  (scores[idx := scores ! idx
                                   + idf * (real term_freq * (k1_param bm + 1)) / denom]))"

text \<open>
  The outer loop \<open>for term in query_terms\<close>. \<open>math.log\<close> raises \<open>ValueError\<close> on an
  argument that is not positive.
\<close>

fun score_terms :: "BM25Okapi \<Rightarrow> string list \<Rightarrow> real list \<Rightarrow> error + real list" where
  "score_terms bm [] scores = Inr scores"
| "score_terms bm (term # rest) scores =
     (let df = dict_get (term_doc_freq bm) term 0 in
      if df = 0 then score_terms bm rest scores
      else
        let x = 1 + (real (corpus_size bm) - real df + 0.5) / (real df + 0.5) in
        if x \<le> 0 then Inl ValueError
        else
          (case score_docs bm term (ln x) 0 (doc_freqs bm) scores of
             Inl e \<Rightarrow> Inl e
           | Inr scores' \<Rightarrow> score_terms bm rest scores'))"

text \<open>\<open>BM25Okapi.get_scores\<close>\<close>

definition get_scores :: "BM25Okapi \<Rightarrow> string list \<Rightarrow> error + real list" where
  "get_scores bm query_terms =
     (if corpus_size bm = 0 then Inr []
      else score_terms bm query_terms (replicate (corpus_size bm) 0))"

section \<open>The engine \<open>HybridSearch\<close>\<close>

subsection \<open>Tokenisation: \<open>text.lower().split()\<close>\<close>

text \<open>
  Strings are taken to be ASCII. \<open>str.lower\<close> maps \<open>A\<close> to \<open>Z\<close> to \<open>a\<close> to \<open>z\<close>;
  \<open>str.split()\<close> with no argument cuts at runs of whitespace (the characters 9 to 13,
  28 to 31 and 32) and returns no empty token.
\<close>

definition lower_char :: "char \<Rightarrow> char" where
  "lower_char c =
     (case map_of (zip ''ABCDEFGHIJKLMNOPQRSTUVWXYZ'' ''abcdefghijklmnopqrstuvwxyz'') c of
        None \<Rightarrow> c
      | Some l \<Rightarrow> l)"

definition lower :: "string \<Rightarrow> string" where
  "lower s = map lower_char s"

definition is_space :: "char \<Rightarrow> bool" where
  "is_space c =
     (let n = (of_char c :: nat) in (9 \<le> n \<and> n \<le> 13) \<or> (28 \<le> n \<and> n \<le> 32))"

fun split_from :: "string \<Rightarrow> string \<Rightarrow> string list" where
  "split_from cur [] = (if cur = [] then [] else [cur])"
| "split_from cur (c # cs) =
     (if is_space c then (if cur = [] then split_from [] cs else cur # split_from [] cs)
      else split_from (cur @ [c]) cs)"

definition split :: "string \<Rightarrow> string list" where
  "split s = split_from [] s"

subsection \<open>State and collaborators\<close>

text \<open>
  The fields of a \<open>HybridSearch\<close> object that the search reads and writes. A document of
  \<open>self.documents\<close> is the pair of its \<open>content\<close> and its \<open>metadata\<close>.
\<close>

record HybridSearch =
  vector_weight :: real
  bm25_weight :: real
  bm25_index :: "BM25Okapi option"
  documents :: "(string \<times> metadata) list"

text \<open>
  What the engine calls outside the repository: Python's \<open>hash\<close>; \<open>numpy.argsort\<close>, which
  leaves the order of equal scores open; the embedding of the query followed by
  \<open>collection.query\<close>, which gives rows \<open>(document, distance, metadata)\<close> or raises; and
  \<open>collection.get\<close>, the snapshot of all documents, which can raise too.
\<close>

record 'k externals =
  hash :: "string \<Rightarrow> 'k"
  argsort :: "real list \<Rightarrow> nat list"
  collection_query :: "string \<Rightarrow> int \<Rightarrow> error + (string \<times> real \<times> metadata) list"
  collection_get :: "error + (string \<times> metadata) list"

subsection \<open>The two searches\<close>

text \<open>\<open>HybridSearch._vector_search\<close>: the distance becomes the similarity \<open>1 - dist\<close>.\<close>

definition vector_search :: "'k externals \<Rightarrow> string \<Rightarrow> int \<Rightarrow> error + hit list" where
  "vector_search ext query top_k =
     (case collection_query ext query top_k of
        Inl e \<Rightarrow> Inl e
      | Inr rows \<Rightarrow> Inr (map (\<lambda>(doc, dist, meta). (doc, 1 - dist, meta)) rows))"

text \<open>\<open>HybridSearch._build_bm25_index\<close>; \<open>BM25Okapi\<close> gets its default parameters.\<close>

definition build_bm25_index :: "'k externals \<Rightarrow> HybridSearch \<Rightarrow> error + HybridSearch" where
  "build_bm25_index ext self =
     (case collection_get ext of
        Inl e \<Rightarrow> Inl e
      | Inr all_docs \<Rightarrow>
          let tokenized_docs = map (\<lambda>doc. split (lower (fst doc))) all_docs
          in Inr (self\<lparr>documents := all_docs,
                       bm25_index := Some (BM25Okapi_init tokenized_docs 1.5 0.75)\<rparr>))"

text \<open>
  The loop of \<open>_bm25_search\<close> over \<open>top_indices\<close>, which keeps the documents with a
  positive score.
\<close>

fun bm25_hits :: "real list \<Rightarrow> (string \<times> metadata) list \<Rightarrow> nat list \<Rightarrow> error + hit list" where
  "bm25_hits scores docs [] = Inr []"
| "bm25_hits scores docs (idx # rest) =
     (if length scores \<le> idx then Inl IndexError
      else if scores ! idx > 0 then
        (if length docs \<le> idx then Inl IndexError
         else
           (case bm25_hits scores docs rest of
              Inl e \<Rightarrow> Inl e
            | Inr results \<Rightarrow>
                Inr ((fst (docs ! idx), scores ! idx, snd (docs ! idx)) # results)))
      else bm25_hits scores docs rest)"

text \<open>
  \<open>HybridSearch._bm25_search\<close>, which returns its outcome and the object, whose index it
  builds on first use. \<open>top_indices\<close> is \<open>np.argsort(scores)[-top_k:][::-1]\<close>.
\<close>

definition bm25_search ::
  "'k externals \<Rightarrow> HybridSearch \<Rightarrow> string \<Rightarrow> int \<Rightarrow> (error + hit list) \<times> HybridSearch"
where
  "bm25_search ext self query top_k =
     (case (if bm25_index self = None then build_bm25_index ext self else Inr self) of
        Inl e \<Rightarrow> (Inl e, self)
      | Inr self' \<Rightarrow>
         (case bm25_index self' of
            None \<Rightarrow> (Inl AttributeError, self')
          | Some index \<Rightarrow>
              let tokenized_query = split (lower query) in
              (case get_scores index tokenized_query of
                 Inl e \<Rightarrow> (Inl e, self')
               | Inr scores \<Rightarrow>
                   let top_indices = rev (slice_from (- top_k) (argsort ext scores))
                   in (bm25_hits scores (documents self') top_indices, self'))))"

subsection \<open>\<open>HybridSearch.search\<close>\<close>

text \<open>
  Neither task awaits anything that suspends it, so the event loop runs the vector task
  to its end, then the lexical task to its end, and \<open>asyncio.gather\<close> hands the first
  exception raised to the caller: the vector task's, else the lexical task's.
\<close>

definition search ::
  "'k externals \<Rightarrow> HybridSearch \<Rightarrow> string \<Rightarrow> int
     \<Rightarrow> (error + SearchResult list) \<times> HybridSearch"
where
  "search ext self query top_k =
     (let vector_outcome = vector_search ext query top_k;
          (bm25_outcome, self') = bm25_search ext self query top_k
      in case vector_outcome of
           Inl e \<Rightarrow> (Inl e, self')
         | Inr vector_results \<Rightarrow>
            (case bm25_outcome of
               Inl e \<Rightarrow> (Inl e, self')
             | Inr bm25_results \<Rightarrow>
                 (reciprocal_rank_fusion (hash ext) (vector_weight self') (bm25_weight self')
                    vector_results bm25_results top_k 60,
                  self')))"

section \<open>Notions used to state the properties\<close>

text \<open>
  The rank of an item in a list: the 0-based position of its first occurrence (the
  length of the list when it does not occur).
\<close>

fun index_of :: "'a list \<Rightarrow> 'a \<Rightarrow> nat" where
  "index_of [] x = 0"
| "index_of (y # ys) x = (if x = y then 0 else Suc (index_of ys x))"

text \<open>
  The keys of a dictionary after the keys \<open>ks\<close> have been assigned in turn, starting
  from a dictionary with the keys \<open>acc\<close>: each new key goes to the end once.
\<close>

fun insert_keys :: "'k list \<Rightarrow> 'k list \<Rightarrow> 'k list" where
  "insert_keys acc [] = acc"
| "insert_keys acc (key # ks) = insert_keys (if key \<in> set acc then acc else acc @ [key]) ks"

text \<open>The fusion keys \<open>hash(content)\<close> of a ranking list, in rank order.\<close>

definition hit_keys :: "(string \<Rightarrow> 'k) \<Rightarrow> hit list \<Rightarrow> 'k list" where
  "hit_keys h L = map (\<lambda>x. h (fst x)) L"

text \<open>
  The sum of \<open>w \<cdot> 1 / (k + r + 1)\<close> over every rank \<open>r\<close> (counted from \<open>rank\<close>) at which
  the list holds an entry with the given key.
\<close>

fun rrf_sum :: "(string \<Rightarrow> 'k) \<Rightarrow> real \<Rightarrow> int \<Rightarrow> nat \<Rightarrow> hit list \<Rightarrow> 'k \<Rightarrow> real" where
  "rrf_sum h w k rank [] key = 0"
| "rrf_sum h w k rank (x # rest) key =
     (if h (fst x) = key then w * (1 / real_of_int (k + int rank + 1)) else 0)
       + rrf_sum h w k (Suc rank) rest key"

text \<open>
  The contribution of one list to a document, as the specification states it:
  \<open>w \<cdot> 1 / (k + r + 1)\<close> at the document's rank \<open>r\<close> when the list contains it, nothing
  otherwise.
\<close>

definition contribution :: "(string \<Rightarrow> 'k) \<Rightarrow> real \<Rightarrow> int \<Rightarrow> hit list \<Rightarrow> 'k \<Rightarrow> real" where
  "contribution h w k L key =
     (if key \<in> set (hit_keys h L)
      then w * (1 / real_of_int (k + int (index_of (hit_keys h L) key) + 1)) else 0)"

text \<open>
  The tie-break of the specification between two documents: the list of origin first
  (a document of the vector list before one found by the lexical list only), then the
  rank in that list, lower first. \<open>kv\<close> and \<open>kb\<close> are the keys of the vector and of the
  lexical list.
\<close>

definition tie_break_before :: "'k list \<Rightarrow> 'k list \<Rightarrow> 'k \<Rightarrow> 'k \<Rightarrow> bool" where
  "tie_break_before kv kb a b =
     ((a \<in> set kv \<and> b \<notin> set kv)
      \<or> (a \<in> set kv \<and> b \<in> set kv \<and> index_of kv a < index_of kv b)
      \<or> (a \<notin> set kv \<and> b \<notin> set kv \<and> index_of kb a < index_of kb b))"

text \<open>The keys that only the lexical list holds, each once, in the order of that list.\<close>

definition lexical_only :: "'k list \<Rightarrow> 'k list \<Rightarrow> 'k list" where
  "lexical_only kv kb = insert_keys [] (filter (\<lambda>key. key \<notin> set kv) kb)"

text \<open>The result built for a key whose three dictionary entries are present.\<close>

definition fused_entry :: "'k rrf_state \<Rightarrow> 'k \<Rightarrow> SearchResult" where
  "fused_entry st key =
     (case st of (S, C, M) \<Rightarrow>
        \<lparr>content = dict_get C key [], metadata = dict_get M key [],
         score = dict_get S key 0, source = ''hybrid''\<rparr>)"

text \<open>
  The quantities of the lexical formula, for a corpus of tokenised documents: the term
  frequency \<open>tf(t, i)\<close>, the document frequency \<open>df(t)\<close>, the average document length
  (0 for the empty corpus) and \<open>idf(t) = ln (1 + (N - df(t) + 0.5) / (df(t) + 0.5))\<close>.
\<close>

definition tf :: "string list list \<Rightarrow> string \<Rightarrow> nat \<Rightarrow> nat" where
  "tf docs t i = count_list (docs ! i) t"

definition df :: "string list list \<Rightarrow> string \<Rightarrow> nat" where
  "df docs t = length (filter (\<lambda>doc. t \<in> set doc) docs)"

definition avg_len :: "string list list \<Rightarrow> real" where
  "avg_len docs =
     (if docs = [] then 0 else real (sum_list (map length docs)) / real (length docs))"

definition idf :: "string list list \<Rightarrow> string \<Rightarrow> real" where
  "idf docs t = ln (1 + (real (length docs) - real (df docs t) + 0.5) / (real (df docs t) + 0.5))"

text \<open>
  The contribution of the term \<open>t\<close> to the document \<open>i\<close>, as the specification states it:
  \<open>idf(t) \<cdot> tf(t,i) \<cdot> (k1 + 1) / (tf(t,i) + k1 \<cdot> (1 - b + b \<cdot> len(i) / avgLen))\<close>, with the
  denominator \<open>tf(t,i) + k1\<close> when \<open>avgLen = 0\<close>; and the score of the document, the sum
  over the query's terms.
\<close>

definition term_score :: "string list list \<Rightarrow> real \<Rightarrow> real \<Rightarrow> string \<Rightarrow> nat \<Rightarrow> real" where
  "term_score docs k1 b t i =
     idf docs t * (real (tf docs t i) * (k1 + 1))
       / (if avg_len docs \<noteq> 0
          then real (tf docs t i) + k1 * (1 - b + b * real (length (docs ! i)) / avg_len docs)
          else real (tf docs t i) + k1)"

definition lexical_score :: "string list list \<Rightarrow> real \<Rightarrow> real \<Rightarrow> string list \<Rightarrow> nat \<Rightarrow> real" where
  "lexical_score docs k1 b q i = (\<Sum>t\<leftarrow>q. term_score docs k1 b t i)"

text \<open>The same, for the fusion with the arithmetic \<open>ar\<close>.\<close>

definition fused_entry_fl :: "'f float_ops \<Rightarrow> ('k, 'f) fl_state \<Rightarrow> 'k \<Rightarrow> SearchResult" where
  "fused_entry_fl ar st key =
     (case st of (S, C, M) \<Rightarrow>
        \<lparr>content = dict_get C key [], metadata = dict_get M key [],
         score = fl_value ar (dict_get S key (fl_zero ar)), source = ''hybrid''\<rparr>)"

section \<open>Example inputs\<close>

text \<open>
  A store of two documents, the rows its vector query returns (document, cosine
  distance, metadata), a stable \<open>argsort\<close>, an identity key in place of \<open>hash\<close> (a hash
  without collisions), and an engine as \<open>__init__\<close> leaves it. In the two other
  environments one of the collaborators raises.
\<close>

abbreviation example_docs :: "(string \<times> metadata) list" where
  "example_docs \<equiv> [(''GPU fast'', [(''page'', ''1'')]), (''CPU slow'', [(''page'', ''2'')])]"

abbreviation example_rows :: "(string \<times> real \<times> metadata) list" where
  "example_rows \<equiv>
     [(''GPU fast'', 1/10, [(''page'', ''1'')]), (''CPU slow'', 3/10, [(''page'', ''2'')])]"

abbreviation stable_argsort :: "real list \<Rightarrow> nat list" where
  "stable_argsort \<equiv> (\<lambda>scores. sort_key (\<lambda>i. scores ! i) [0..<length scores])"

abbreviation example_ext :: "string externals" where
  "example_ext \<equiv>
     \<lparr>hash = (\<lambda>c. c), argsort = stable_argsort,
      collection_query = (\<lambda>q n. Inr (take (nat n) example_rows)),
      collection_get = Inr example_docs\<rparr>"

abbreviation vector_down_ext :: "string externals" where
  "vector_down_ext \<equiv>
     \<lparr>hash = (\<lambda>c. c), argsort = stable_argsort,
      collection_query = (\<lambda>q n. Inl (SubsystemError ''vector store unreachable'')),
      collection_get = Inr example_docs\<rparr>"

abbreviation lexical_down_ext :: "string externals" where
  "lexical_down_ext \<equiv>
     \<lparr>hash = (\<lambda>c. c), argsort = stable_argsort,
      collection_query = (\<lambda>q n. Inr (take (nat n) example_rows)),
      collection_get = Inl (SubsystemError ''document store unreachable'')\<rparr>"

abbreviation fresh_engine :: HybridSearch where
  "fresh_engine \<equiv> \<lparr>vector_weight = 7/10, bm25_weight = 3/10, bm25_index = None, documents = []\<rparr>"

text \<open>
  An arithmetic that rounds: every result is cut to three decimal places. It stands for
  the rounding of the doubles in an example small enough to evaluate.
\<close>

abbreviation truncating_arith :: "real float_ops" where
  "truncating_arith \<equiv>
     \<lparr>fl_zero = 0,
      fl_add = (\<lambda>x y. real_of_int \<lfloor>(x + y) * 1000\<rfloor> / 1000),
      fl_mul = (\<lambda>x y. real_of_int \<lfloor>(x * y) * 1000\<rfloor> / 1000),
      fl_recip = (\<lambda>n. real_of_int \<lfloor>1 / real_of_int n * 1000\<rfloor> / 1000),
      fl_value = (\<lambda>x. x)\<rparr>"

section \<open>Auxiliary lemmas\<close>

subsection \<open>Ranks, insertion order and the stable sort\<close>

lemma index_of_less: "x \<in> set xs \<Longrightarrow> index_of xs x < length xs"
  by (induction xs) auto

lemma index_of_append:
  "index_of (xs @ ys) x = (if x \<in> set xs then index_of xs x else length xs + index_of ys x)"
  by (induction xs) auto

lemma insert_keys_snoc:
  "insert_keys acc (ks @ [key]) =
     (if key \<in> set (insert_keys acc ks) then insert_keys acc ks else insert_keys acc ks @ [key])"
  by (induction ks arbitrary: acc) auto

lemma set_insert_keys: "set (insert_keys acc ks) = set acc \<union> set ks"
  by (induction ks arbitrary: acc) auto

lemma distinct_insert_keys: "distinct acc \<Longrightarrow> distinct (insert_keys acc ks)"
  by (induction ks arbitrary: acc) auto

lemma insert_keys_append: "insert_keys acc (ks @ ks') = insert_keys (insert_keys acc ks) ks'"
  by (induction ks arbitrary: acc) auto

lemma insert_keys_ordered:
  "sorted_wrt (\<lambda>a b. index_of ks a < index_of ks b) (insert_keys [] ks)"
proof (induction ks rule: rev_induct)
  case Nil
  then show ?case by simp
next
  case (snoc key ks)
  let ?K = "insert_keys [] ks"
  have setK: "set ?K = set ks" by (simp add: set_insert_keys)
  have same: "sorted_wrt (\<lambda>a b. index_of (ks @ [key]) a < index_of (ks @ [key]) b) ?K"
    using snoc.IH
    by (rule sorted_wrt_mono_rel[rotated]) (simp add: setK index_of_append)
  show ?case
  proof (cases "key \<in> set ?K")
    case True
    then show ?thesis using same by (simp add: insert_keys_snoc)
  next
    case False
    then have "key \<notin> set ks" using setK by simp
    then have "\<forall>a\<in>set ?K. index_of (ks @ [key]) a < index_of (ks @ [key]) key"
      by (auto simp: setK index_of_append index_of_less)
    then show ?thesis using same False
      by (simp add: insert_keys_snoc sorted_wrt_append)
  qed
qed

lemma insort_key_later:
  fixes f :: "'a \<Rightarrow> real" and p :: "'a \<Rightarrow> nat"
  assumes "sorted_wrt (\<lambda>a b. f a < f b \<or> (f a = f b \<and> p b < p a)) zs"
    and "\<forall>z\<in>set zs. p z < p y"
  shows "sorted_wrt (\<lambda>a b. f a < f b \<or> (f a = f b \<and> p b < p a)) (insort_key f y zs)"
  using assms
proof (induction zs)
  case Nil
  then show ?case by simp
next
  case (Cons z zs)
  show ?case
  proof (cases "f y \<le> f z")
    case True
    have "\<forall>w\<in>set (z # zs). f y < f w \<or> (f y = f w \<and> p w < p y)"
      using True Cons.prems by auto
    then show ?thesis using True Cons.prems by simp
  next
    case False
    then show ?thesis using Cons by (auto simp: set_insort_key)
  qed
qed

lemma sort_key_later:
  fixes f :: "'a \<Rightarrow> real" and p :: "'a \<Rightarrow> nat"
  assumes "sorted_wrt (\<lambda>a b. p b < p a) ys"
  shows "sorted_wrt (\<lambda>a b. f a < f b \<or> (f a = f b \<and> p b < p a)) (sort_key f ys)"
  using assms
proof (induction ys)
  case Nil
  then show ?case by simp
next
  case (Cons y ys)
  then show ?case
    by (auto intro!: insort_key_later)
qed

lemma sorted_reverse_stable:
  fixes f :: "'a \<Rightarrow> real" and p :: "'a \<Rightarrow> nat"
  assumes "sorted_wrt (\<lambda>a b. p a < p b) xs"
  shows "sorted_wrt (\<lambda>a b. f b < f a \<or> (f a = f b \<and> p a < p b)) (sorted_reverse f xs)"
proof -
  have "sorted_wrt (\<lambda>a b. p b < p a) (rev xs)"
    using assms by (simp add: sorted_wrt_rev)
  then have "sorted_wrt (\<lambda>a b. f a < f b \<or> (f a = f b \<and> p b < p a)) (sort_key f (rev xs))"
    by (rule sort_key_later)
  then show ?thesis
    unfolding sorted_reverse_def sorted_wrt_rev
    by (rule sorted_wrt_mono_rel[rotated]) auto
qed

lemma set_sorted_reverse: "set (sorted_reverse f xs) = set xs"
  by (simp add: sorted_reverse_def)

lemma length_sorted_reverse: "length (sorted_reverse f xs) = length xs"
  by (simp add: sorted_reverse_def)

subsection \<open>Dictionaries and the scoring loops\<close>

lemma keys_dict_set:
  "map fst (dict_set d key v) = (if key \<in> set (map fst d) then map fst d else map fst d @ [key])"
  by (simp add: dict_set_def update_keys)

lemma map_of_dict_set: "map_of (dict_set d key v) = (map_of d)(key \<mapsto> v)"
  by (simp add: dict_set_def update_conv')

lemma dict_get_set:
  "dict_get (dict_set d key v) key' dflt = (if key' = key then v else dict_get d key' dflt)"
  by (simp add: dict_get_def map_of_dict_set)

lemma dict_lookup_present:
  "key \<in> set (map fst d) \<Longrightarrow> dict_lookup d key = Inr (dict_get d key dflt)"
  by (auto simp: dict_lookup_def dict_get_def map_of_eq_None_iff split: option.splits)

lemma score_results_ok:
  "0 \<le> k \<Longrightarrow> \<exists>st'. score_results h w k rank xs st = Inr st'"
proof (induction h w k rank xs st rule: score_results.induct)
  case (1 h w k rank st)
  then show ?case by (cases st) auto
next
  case (2 h w k rank c s m rest scores content_map metadata_map)
  then show ?case by (simp add: Let_def)
qed

lemma score_results_keys:
  "score_results h w k rank xs (S, C, M) = Inr (S', C', M') \<Longrightarrow>
     map fst S' = insert_keys (map fst S) (hit_keys h xs) \<and>
     map fst C' = insert_keys (map fst C) (hit_keys h xs) \<and>
     map fst M' = insert_keys (map fst M) (hit_keys h xs)"
proof (induction h w k rank xs "(S, C, M)" arbitrary: S C M rule: score_results.induct)
  case (1 h w k rank)
  then show ?case by (simp add: hit_keys_def)
next
  case (2 h w k rank c s m rest scores content_map metadata_map)
  then show ?case
    by (simp add: Let_def hit_keys_def keys_dict_set split: if_splits)
qed

lemma score_results_value:
  "score_results h w k rank xs (S, C, M) = Inr (S', C', M') \<Longrightarrow>
     dict_get S' key 0 = dict_get S key 0 + rrf_sum h w k rank xs key"
proof (induction h w k rank xs "(S, C, M)" arbitrary: S C M rule: score_results.induct)
  case (1 h w k rank)
  then show ?case by simp
next
  case (2 h w k rank c s m rest scores content_map metadata_map)
  then show ?case
    by (simp add: Let_def dict_get_set split: if_splits)
qed

lemma score_results_content:
  "score_results h w k rank xs (S, C, M) = Inr (S', C', M') \<Longrightarrow>
     \<forall>key c. map_of C key = Some c \<longrightarrow> h c = key \<Longrightarrow>
     \<forall>key c. map_of C' key = Some c \<longrightarrow> h c = key"
proof (induction h w k rank xs "(S, C, M)" arbitrary: S C M rule: score_results.induct)
  case (1 h w k rank)
  then show ?case by simp
next
  case (2 h w k rank c s m rest scores content_map metadata_map)
  from "2.prems"(1) have nz: "k + int rank + 1 \<noteq> 0" by (auto split: if_splits)
  show ?case
  proof (rule "2.hyps"[OF nz refl refl])
    show "score_results h w k (Suc rank) rest
            (dict_set scores (h c) (dict_get scores (h c) 0 + w * (1 / real_of_int (k + int rank + 1))),
             dict_set content_map (h c) c, dict_set metadata_map (h c) m) = Inr (S', C', M')"
      using "2.prems"(1) nz by (simp add: Let_def)
    show "\<forall>key ca. map_of (dict_set content_map (h c) c) key = Some ca \<longrightarrow> h ca = key"
      using "2.prems"(2) by (auto simp: map_of_dict_set)
  qed
qed

subsection \<open>The fused list\<close>

lemma collect_map: "\<forall>x\<in>set xs. f x = Inr (g x) \<Longrightarrow> collect f xs = Inr (map g xs)"
  by (induction xs) auto

lemma collect_length: "collect f xs = Inr ys \<Longrightarrow> length ys = length xs"
  by (induction xs arbitrary: ys) (auto split: sum.splits)

lemma make_result_present:
  assumes "key \<in> set (map fst S)" "map fst C = map fst S" "map fst M = map fst S"
  shows "make_result (S, C, M) key = Inr (fused_entry (S, C, M) key)"
proof -
  have "dict_lookup C key = Inr (dict_get C key [])"
    using assms by (intro dict_lookup_present) simp
  moreover have "dict_lookup M key = Inr (dict_get M key [])"
    using assms by (intro dict_lookup_present) simp
  moreover have "dict_lookup S key = Inr (dict_get S key 0)"
    using assms by (intro dict_lookup_present) simp
  ultimately show ?thesis by (simp add: make_result_def fused_entry_def)
qed

lemma set_sorted_keys: "set (sorted_keys S) = set (map fst S)"
  by (simp add: sorted_keys_def set_sorted_reverse)

lemma length_sorted_keys: "length (sorted_keys S) = length S"
  by (simp add: sorted_keys_def length_sorted_reverse)

lemma set_slice_to: "set (slice_to n xs) \<subseteq> set xs"
  by (auto simp: slice_to_def dest: in_set_takeD)

lemma length_slice_to: "0 \<le> n \<Longrightarrow> int (length (slice_to n xs)) \<le> n"
  by (simp add: slice_to_def)

lemma slice_to_all: "int (length xs) \<le> n \<Longrightarrow> slice_to n xs = xs"
  by (simp add: slice_to_def)

lemma rrf_char:
  assumes "0 \<le> k"
  obtains S C M where
    "reciprocal_rank_fusion h wv wb V B top_k k =
       Inr (map (fused_entry (S, C, M)) (slice_to top_k (sorted_keys S)))"
    "map fst S = insert_keys [] (hit_keys h V @ hit_keys h B)"
    "\<And>key. dict_get S key 0 = rrf_sum h wv k 0 V key + rrf_sum h wb k 0 B key"
    "\<And>key. key \<in> set (map fst S) \<Longrightarrow> h (dict_get C key []) = key"
proof -
  obtain S1 C1 M1 where st1: "score_results h wv k 0 V ([], [], []) = Inr (S1, C1, M1)"
    using score_results_ok[OF assms, of h wv 0 V "([], [], [])"] by (metis prod_cases3)
  obtain S C M where st2: "score_results h wb k 0 B (S1, C1, M1) = Inr (S, C, M)"
    using score_results_ok[OF assms, of h wb 0 B "(S1, C1, M1)"] by (metis prod_cases3)
  note k1 = score_results_keys[OF st1] and k2 = score_results_keys[OF st2]
  have keysS: "map fst S = insert_keys [] (hit_keys h V @ hit_keys h B)"
    using k1 k2 by (simp add: insert_keys_append)
  have keysC: "map fst C = map fst S" and keysM: "map fst M = map fst S"
    using k1 k2 by simp_all
  have val: "dict_get S key 0 = rrf_sum h wv k 0 V key + rrf_sum h wb k 0 B key" for key
    using score_results_value[OF st1, of key] score_results_value[OF st2, of key]
    by (simp add: dict_get_def)
  have "\<forall>key c. map_of C1 key = Some c \<longrightarrow> h c = key"
    using score_results_content[OF st1] by simp
  then have cont: "\<forall>key c. map_of C key = Some c \<longrightarrow> h c = key"
    by (rule score_results_content[OF st2])
  have hkey: "h (dict_get C key []) = key" if "key \<in> set (map fst S)" for key
  proof -
    from that keysC have "key \<in> fst ` set C" by (metis set_map)
    then obtain c where "map_of C key = Some c"
      by (metis map_of_eq_None_iff not_Some_eq)
    then show ?thesis using cont by (simp add: dict_get_def)
  qed
  have "\<forall>key\<in>set (slice_to top_k (sorted_keys S)).
          make_result (S, C, M) key = Inr (fused_entry (S, C, M) key)"
    using set_slice_to[of top_k "sorted_keys S"] keysC keysM
    by (auto simp: set_sorted_keys intro!: make_result_present)
  then have "collect (make_result (S, C, M)) (slice_to top_k (sorted_keys S)) =
               Inr (map (fused_entry (S, C, M)) (slice_to top_k (sorted_keys S)))"
    by (rule collect_map)
  then have "reciprocal_rank_fusion h wv wb V B top_k k =
       Inr (map (fused_entry (S, C, M)) (slice_to top_k (sorted_keys S)))"
    by (simp add: reciprocal_rank_fusion_def st1 st2)
  then show thesis using keysS val hkey that by blast
qed

lemma tie_break_before_index:
  "a \<in> set (kv @ kb) \<Longrightarrow> index_of (kv @ kb) a < index_of (kv @ kb) b \<Longrightarrow>
     tie_break_before kv kb a b"
  using index_of_less[of a kv] index_of_less[of b kv]
  by (auto simp: tie_break_before_def index_of_append split: if_splits)

lemma slice_to_map: "slice_to n (map f xs) = map f (slice_to n xs)"
  by (simp add: slice_to_def take_map)

lemma sorted_wrt_slice_to: "sorted_wrt P xs \<Longrightarrow> sorted_wrt P (slice_to n xs)"
  by (simp add: slice_to_def sorted_wrt_take)

lemma dict_get_entry:
  "distinct (map fst d) \<Longrightarrow> (key, v) \<in> set d \<Longrightarrow> dict_get d key dflt = v"
  by (simp add: dict_get_def)

lemma fused_entry_sel:
  "score (fused_entry (S, C, M) key) = dict_get S key 0"
  "content (fused_entry (S, C, M) key) = dict_get C key []"
  "metadata (fused_entry (S, C, M) key) = dict_get M key []"
  "source (fused_entry (S, C, M) key) = ''hybrid''"
  by (simp_all add: fused_entry_def)

lemma rrf_sum_distinct:
  "distinct (hit_keys h L) \<Longrightarrow>
     rrf_sum h w k rank L key =
       (if key \<in> set (hit_keys h L)
        then w * (1 / real_of_int (k + int rank + int (index_of (hit_keys h L) key) + 1))
        else 0)"
proof (induction L arbitrary: rank)
  case Nil
  then show ?case by (simp add: hit_keys_def)
next
  case (Cons x L)
  then have "distinct (hit_keys h L)" and "h (fst x) \<notin> set (hit_keys h L)"
    by (simp_all add: hit_keys_def)
  then show ?case using Cons.IH[of "Suc rank"]
    by (auto simp: hit_keys_def algebra_simps)
qed

lemma rrf_sum_contribution:
  "distinct (hit_keys h L) \<Longrightarrow> rrf_sum h w k 0 L key = contribution h w k L key"
  by (simp add: rrf_sum_distinct contribution_def)

lemma insert_keys_filter:
  "insert_keys acc ks = acc @ insert_keys [] (filter (\<lambda>key. key \<notin> set acc) ks)"
proof (induction ks rule: rev_induct)
  case Nil
  then show ?case by simp
next
  case (snoc key ks)
  show ?case
    by (simp add: insert_keys_snoc set_insert_keys snoc.IH[symmetric])
qed

lemma insert_keys_distinct: "distinct ks \<Longrightarrow> insert_keys [] ks = ks"
  by (induction ks rule: rev_induct) (simp_all add: insert_keys_snoc set_insert_keys)

lemma insert_keys_vector_first:
  "distinct kv \<Longrightarrow> insert_keys [] (kv @ kb) = kv @ lexical_only kv kb"
  using insert_keys_filter[of kv kb]
  by (simp add: insert_keys_append insert_keys_distinct lexical_only_def)

lemma sorted_reverse_id:
  assumes "sorted_wrt (\<lambda>a b. f b \<le> f a) xs"
  shows "sorted_reverse f xs = xs"
proof -
  have "sorted (map f (rev xs))"
    using assms by (simp add: sorted_wrt_map sorted_wrt_rev)
  then have "sort_key f (rev xs) = rev xs"
    by (rule sort_key_id_if_sorted)
  then show ?thesis by (simp add: sorted_reverse_def)
qed

lemma index_of_nth: "distinct xs \<Longrightarrow> i < length xs \<Longrightarrow> index_of xs (xs ! i) = i"
proof (induction xs arbitrary: i)
  case Nil
  then show ?case by simp
next
  case (Cons x xs)
  then show ?case by (cases i) auto
qed

lemma contribution_vector_order:
  assumes "0 \<le> k" "distinct (hit_keys h V)"
  shows "sorted_wrt (\<lambda>a c. contribution h 1 k V c \<le> contribution h 1 k V a) (hit_keys h V)"
proof -
  have "contribution h 1 k V (hit_keys h V ! j) \<le> contribution h 1 k V (hit_keys h V ! i)"
    if "i < j" "j < length (hit_keys h V)" for i j
  proof -
    have "real_of_int (k + int i + 1) \<le> real_of_int (k + int j + 1)"
      using that by simp
    moreover have "0 < real_of_int (k + int i + 1)" using assms(1) by simp
    ultimately have "1 / real_of_int (k + int j + 1) \<le> 1 / real_of_int (k + int i + 1)"
      by (simp add: frac_le)
    then show ?thesis
      using that assms(2) by (simp add: contribution_def index_of_nth)
  qed
  then show ?thesis by (simp add: sorted_wrt_iff_nth_less)
qed

lemma rrf_sum_zero_weight: "rrf_sum h 0 k rank L key = 0"
  by (induction L arbitrary: rank) simp_all

lemma contribution_nonneg: "0 \<le> k \<Longrightarrow> 0 \<le> contribution h 1 k V key"
  by (simp add: contribution_def)

lemma score_results_ignores_scores:
  "map (\<lambda>(c, s, m). (c, m)) L = map (\<lambda>(c, s, m). (c, m)) L' \<Longrightarrow>
     score_results h w k rank L st = score_results h w k rank L' st"
proof (induction L arbitrary: L' rank st)
  case Nil
  then show ?case by simp
next
  case (Cons x L)
  then obtain y L'' where L': "L' = y # L''" by (cases L') auto
  obtain c s m where x: "x = (c, s, m)" by (cases x) auto
  obtain c' s' m' where y: "y = (c', s', m')" by (cases y) auto
  obtain S C M where st: "st = (S, C, M)" by (cases st) auto
  from Cons.prems have eq: "c' = c" "m' = m"
    and rest: "map (\<lambda>(c, s, m). (c, m)) L = map (\<lambda>(c, s, m). (c, m)) L''"
    by (simp_all add: L' x y)
  have IH: "score_results h w k (Suc rank) L st' = score_results h w k (Suc rank) L'' st'" for st'
    by (rule Cons.IH[OF rest])
  show ?case
    unfolding L' x y st eq by (simp add: Let_def IH)
qed

lemma collect_set:
  "collect f xs = Inr ys \<Longrightarrow> y \<in> set ys \<Longrightarrow> \<exists>x\<in>set xs. f x = Inr y"
  by (induction xs arbitrary: ys) (auto split: sum.splits)

lemma make_result_source: "make_result st key = Inr r \<Longrightarrow> source r = ''hybrid''"
  by (cases st) (auto simp: make_result_def split: sum.splits)

lemma rrf_Inr_collect:
  fixes h :: "string \<Rightarrow> 'k"
  assumes "reciprocal_rank_fusion h wv wb V B top_k k = Inr rs"
  shows "\<exists>st :: 'k rrf_state. collect (make_result st) (slice_to top_k (sorted_keys (fst st))) = Inr rs"
proof (cases "score_results h wv k 0 V ([], [], [])")
  case (Inl e)
  then show ?thesis using assms by (simp add: reciprocal_rank_fusion_def)
next
  case st1: (Inr st1)
  show ?thesis
  proof (cases "score_results h wb k 0 B st1")
    case (Inl e)
    then show ?thesis using assms st1 by (simp add: reciprocal_rank_fusion_def)
  next
    case (Inr st2)
    then have "collect (make_result st2) (slice_to top_k (sorted_keys (fst st2))) = Inr rs"
      using assms st1 by (simp add: reciprocal_rank_fusion_def)
    then show ?thesis by (rule exI[of _ st2])
  qed
qed

lemma rrf_length:
  fixes h :: "string \<Rightarrow> 'k"
  assumes "reciprocal_rank_fusion h wv wb V B top_k k = Inr rs" "0 \<le> top_k"
  shows "int (length rs) \<le> top_k"
proof -
  from rrf_Inr_collect[OF assms(1)]
  obtain st :: "'k rrf_state"
    where "collect (make_result st) (slice_to top_k (sorted_keys (fst st))) = Inr rs"
    by (rule exE)
  then have "length rs = length (slice_to top_k (sorted_keys (fst st)))"
    by (rule collect_length)
  then show ?thesis using length_slice_to[OF assms(2)] by simp
qed

lemma rrf_source:
  fixes h :: "string \<Rightarrow> 'k"
  assumes "reciprocal_rank_fusion h wv wb V B top_k k = Inr rs" "r \<in> set rs"
  shows "source r = ''hybrid''"
proof -
  from rrf_Inr_collect[OF assms(1)]
  obtain st :: "'k rrf_state"
    where c: "collect (make_result st) (slice_to top_k (sorted_keys (fst st))) = Inr rs"
    by (rule exE)
  from collect_set[OF c assms(2)] obtain key where "make_result st key = Inr r"
    by (rule bexE)
  then show ?thesis by (rule make_result_source)
qed

subsection \<open>The fusion on floating-point numbers\<close>

lemma score_results_fl_ok:
  "0 \<le> k \<Longrightarrow> \<exists>st'. score_results_fl ar h w k rank xs st = Inr st'"
proof (induction ar h w k rank xs st rule: score_results_fl.induct)
  case (1 ar h w k rank st)
  then show ?case by (cases st) auto
next
  case (2 ar h w k rank c s m rest scores content_map metadata_map)
  then show ?case by (simp add: Let_def)
qed

lemma score_results_fl_keys:
  "score_results_fl ar h w k rank xs (S, C, M) = Inr (S', C', M') \<Longrightarrow>
     map fst S' = insert_keys (map fst S) (hit_keys h xs) \<and>
     map fst C' = insert_keys (map fst C) (hit_keys h xs) \<and>
     map fst M' = insert_keys (map fst M) (hit_keys h xs)"
proof (induction ar h w k rank xs "(S, C, M)" arbitrary: S C M rule: score_results_fl.induct)
  case (1 ar h w k rank)
  then show ?case by (simp add: hit_keys_def)
next
  case (2 ar h w k rank c s m rest scores content_map metadata_map)
  then show ?case
    by (simp add: Let_def hit_keys_def keys_dict_set split: if_splits)
qed

lemma score_results_fl_content:
  "score_results_fl ar h w k rank xs (S, C, M) = Inr (S', C', M') \<Longrightarrow>
     \<forall>key c. map_of C key = Some c \<longrightarrow> h c = key \<Longrightarrow>
     \<forall>key c. map_of C' key = Some c \<longrightarrow> h c = key"
proof (induction ar h w k rank xs "(S, C, M)" arbitrary: S C M rule: score_results_fl.induct)
  case (1 ar h w k rank)
  then show ?case by simp
next
  case (2 ar h w k rank c s m rest scores content_map metadata_map)
  from "2.prems"(1) have nz: "k + int rank + 1 \<noteq> 0" by (auto split: if_splits)
  show ?case
  proof (rule "2.hyps"[OF nz refl refl])
    show "score_results_fl ar h w k (Suc rank) rest
            (dict_set scores (h c)
               (fl_add ar (dict_get scores (h c) (fl_zero ar))
                  (fl_mul ar w (fl_recip ar (k + int rank + 1)))),
             dict_set content_map (h c) c, dict_set metadata_map (h c) m) = Inr (S', C', M')"
      using "2.prems"(1) nz by (simp add: Let_def)
    show "\<forall>key ca. map_of (dict_set content_map (h c) c) key = Some ca \<longrightarrow> h ca = key"
      using "2.prems"(2) by (auto simp: map_of_dict_set)
  qed
qed

lemma make_result_fl_present:
  assumes "key \<in> set (map fst S)" "map fst C = map fst S" "map fst M = map fst S"
  shows "make_result_fl ar (S, C, M) key = Inr (fused_entry_fl ar (S, C, M) key)"
proof -
  have "dict_lookup C key = Inr (dict_get C key [])"
    using assms by (intro dict_lookup_present) simp
  moreover have "dict_lookup M key = Inr (dict_get M key [])"
    using assms by (intro dict_lookup_present) simp
  moreover have "dict_lookup S key = Inr (dict_get S key (fl_zero ar))"
    using assms by (intro dict_lookup_present) simp
  ultimately show ?thesis by (simp add: make_result_fl_def fused_entry_fl_def)
qed

lemma set_sorted_keys_fl: "set (sorted_keys_fl ar S) = set (map fst S)"
  by (simp add: sorted_keys_fl_def set_sorted_reverse)

lemma fused_entry_fl_sel:
  "score (fused_entry_fl ar (S, C, M) key) = fl_value ar (dict_get S key (fl_zero ar))"
  "content (fused_entry_fl ar (S, C, M) key) = dict_get C key []"
  by (simp_all add: fused_entry_fl_def)

lemma rrf_fl_char:
  assumes "0 \<le> k"
  obtains S C M where
    "reciprocal_rank_fusion_fl ar h wv wb V B top_k k =
       Inr (map (fused_entry_fl ar (S, C, M)) (slice_to top_k (sorted_keys_fl ar S)))"
    "map fst S = insert_keys [] (hit_keys h V @ hit_keys h B)"
    "\<And>key. key \<in> set (map fst S) \<Longrightarrow> h (dict_get C key []) = key"
proof -
  obtain S1 C1 M1 where st1: "score_results_fl ar h wv k 0 V ([], [], []) = Inr (S1, C1, M1)"
    using score_results_fl_ok[OF assms, of ar h wv 0 V "([], [], [])"] by (metis prod_cases3)
  obtain S C M where st2: "score_results_fl ar h wb k 0 B (S1, C1, M1) = Inr (S, C, M)"
    using score_results_fl_ok[OF assms, of ar h wb 0 B "(S1, C1, M1)"] by (metis prod_cases3)
  note k1 = score_results_fl_keys[OF st1] and k2 = score_results_fl_keys[OF st2]
  have keysS: "map fst S = insert_keys [] (hit_keys h V @ hit_keys h B)"
    using k1 k2 by (simp add: insert_keys_append)
  have keysC: "map fst C = map fst S" and keysM: "map fst M = map fst S"
    using k1 k2 by simp_all
  have "\<forall>key c. map_of C1 key = Some c \<longrightarrow> h c = key"
    using score_results_fl_content[OF st1] by simp
  then have cont: "\<forall>key c. map_of C key = Some c \<longrightarrow> h c = key"
    by (rule score_results_fl_content[OF st2])
  have hkey: "h (dict_get C key []) = key" if "key \<in> set (map fst S)" for key
  proof -
    from that keysC have "key \<in> fst ` set C" by (metis set_map)
    then obtain c where "map_of C key = Some c"
      by (metis map_of_eq_None_iff not_Some_eq)
    then show ?thesis using cont by (simp add: dict_get_def)
  qed
  have "\<forall>key\<in>set (slice_to top_k (sorted_keys_fl ar S)).
          make_result_fl ar (S, C, M) key = Inr (fused_entry_fl ar (S, C, M) key)"
    using set_slice_to[of top_k "sorted_keys_fl ar S"] keysC keysM
    by (auto simp: set_sorted_keys_fl intro!: make_result_fl_present)
  then have "collect (make_result_fl ar (S, C, M)) (slice_to top_k (sorted_keys_fl ar S)) =
               Inr (map (fused_entry_fl ar (S, C, M)) (slice_to top_k (sorted_keys_fl ar S)))"
    by (rule collect_map)
  then have "reciprocal_rank_fusion_fl ar h wv wb V B top_k k =
       Inr (map (fused_entry_fl ar (S, C, M)) (slice_to top_k (sorted_keys_fl ar S)))"
    by (simp add: reciprocal_rank_fusion_fl_def st1 st2)
  then show thesis using keysS hkey that by blast
qed

lemma score_results_exact:
  "score_results_fl exact_arith h w k rank xs st = score_results h w k rank xs st"
proof (induction h w k rank xs st rule: score_results.induct)
  case (1 h w k rank st)
  then show ?case by simp
next
  case (2 h w k rank c s m rest scores content_map metadata_map)
  then show ?case by (simp add: Let_def exact_arith_def)
qed

lemma make_result_exact: "make_result_fl exact_arith st key = make_result st key"
  by (cases st)
    (simp add: make_result_fl_def make_result_def exact_arith_def split: sum.splits)

lemma sorted_keys_exact: "sorted_keys_fl exact_arith S = sorted_keys S"
  by (simp add: sorted_keys_fl_def sorted_keys_def exact_arith_def)

lemma reciprocal_rank_fusion_exact:
  "reciprocal_rank_fusion_fl exact_arith h wv wb V B top_k k
     = reciprocal_rank_fusion h wv wb V B top_k k"
  by (simp add: reciprocal_rank_fusion_fl_def reciprocal_rank_fusion_def score_results_exact
      sorted_keys_exact make_result_exact[abs_def] cong: sum.case_cong)

subsection \<open>The lexical index\<close>

lemma increment_get:
  "dict_get (increment d term) t 0 = (if t = term then dict_get d term 0 + 1 else dict_get d t 0)"
  by (simp add: increment_def dict_get_set)

lemma increment_keys:
  "map fst (increment d term) =
     (if term \<in> set (map fst d) then map fst d else map fst d @ [term])"
  by (simp add: increment_def keys_dict_set)

lemma increment_fold_keys:
  "map fst (fold (\<lambda>term d. increment d term) ks d) = insert_keys (map fst d) ks"
  by (induction ks arbitrary: d) (simp_all add: increment_keys)

lemma counter_fold_get:
  "dict_get (fold (\<lambda>term d. increment d term) doc d) t 0 = dict_get d t 0 + count_list doc t"
  by (induction doc arbitrary: d) (simp_all add: increment_get)

lemma Counter_get: "dict_get (Counter doc) t 0 = count_list doc t"
  by (simp add: Counter_def counter_fold_get) (simp add: dict_get_def)

lemma Counter_keys: "set (map fst (Counter doc)) = set doc"
  by (simp only: Counter_def increment_fold_keys set_insert_keys) simp

lemma Counter_distinct: "distinct (map fst (Counter doc))"
  by (simp only: Counter_def increment_fold_keys) (simp add: distinct_insert_keys)

lemma bump_fold_get:
  "distinct ks \<Longrightarrow>
     dict_get (fold (\<lambda>term d. increment d term) ks d) t 0
       = dict_get d t 0 + (if t \<in> set ks then 1 else 0)"
  by (induction ks arbitrary: d) (auto simp: increment_get)

lemma count_doc_terms_get:
  "dict_get (count_doc_terms (Counter doc) tdf) t 0
     = dict_get tdf t 0 + (if t \<in> set doc then 1 else 0)"
  using bump_fold_get[OF Counter_distinct, of doc tdf t]
  by (simp only: count_doc_terms_def Counter_keys)

lemma term_doc_freq_fold:
  "dict_get (fold (\<lambda>doc tdf. count_doc_terms (Counter doc) tdf) docs tdf) t 0
     = dict_get tdf t 0 + df docs t"
  by (induction docs arbitrary: tdf) (simp_all add: df_def count_doc_terms_get)

lemma init_fields:
  "corpus (BM25Okapi_init docs k1 b) = docs"
  "corpus_size (BM25Okapi_init docs k1 b) = length docs"
  "avg_doc_len (BM25Okapi_init docs k1 b) = avg_len docs"
  "k1_param (BM25Okapi_init docs k1 b) = k1"
  "b_param (BM25Okapi_init docs k1 b) = b"
  "doc_freqs (BM25Okapi_init docs k1 b) = map Counter docs"
  "dict_get (term_doc_freq (BM25Okapi_init docs k1 b)) t 0 = df docs t"
  by (simp_all add: BM25Okapi_init_def avg_len_def term_doc_freq_fold)
    (simp add: dict_get_def)

lemma df_le: "df docs t \<le> length docs"
  by (simp add: df_def)

lemma df_zero_tf: "df docs t = 0 \<Longrightarrow> i < length docs \<Longrightarrow> tf docs t i = 0"
  by (auto simp: df_def tf_def filter_empty_conv count_list_0_iff)

lemma avg_len_nonneg: "0 \<le> avg_len docs"
  by (simp add: avg_len_def)

lemma denom_pos:
  assumes "0 < k1" "0 \<le> b" "b < 1"
  shows "0 < (if avg_len docs \<noteq> 0
          then real n + k1 * (1 - b + b * real m / avg_len docs)
          else real n + k1)"
proof (cases "avg_len docs = 0")
  case True
  then show ?thesis using assms by simp
next
  case False
  then have "0 < avg_len docs" using avg_len_nonneg[of docs] by simp
  then have "0 \<le> b * real m / avg_len docs" using assms by simp
  then have "0 < 1 - b + b * real m / avg_len docs" using assms by simp
  then have "0 < k1 * (1 - b + b * real m / avg_len docs)" using assms by simp
  then show ?thesis using False by simp
qed

lemma score_docs_built:
  assumes "0 < k1" "0 \<le> b" "b < 1"
  shows "idx \<le> length docs \<Longrightarrow> length scores = length docs \<Longrightarrow>
     score_docs (BM25Okapi_init docs k1 b) t v idx (drop idx (map Counter docs)) scores
       = Inr (map (\<lambda>j. scores ! j +
                (if idx \<le> j
                 then v * (real (tf docs t j) * (k1 + 1))
                        / (if avg_len docs \<noteq> 0
                           then real (tf docs t j)
                                  + k1 * (1 - b + b * real (length (docs ! j)) / avg_len docs)
                           else real (tf docs t j) + k1)
                 else 0)) [0..<length docs])"
proof (induction "length docs - idx" arbitrary: idx scores)
  case 0
  then have idx: "idx = length docs" by simp
  let ?f = "\<lambda>j. scores ! j +
                (if length docs \<le> j
                 then v * (real (tf docs t j) * (k1 + 1))
                        / (if avg_len docs \<noteq> 0
                           then real (tf docs t j)
                                  + k1 * (1 - b + b * real (length (docs ! j)) / avg_len docs)
                           else real (tf docs t j) + k1)
                 else 0)"
  have "map ?f [0..<length docs] = map (\<lambda>j. scores ! j) [0..<length docs]"
    by (rule map_cong[OF refl]) simp
  also have "\<dots> = scores"
    using "0.prems"(2) map_nth[of scores] by simp
  finally have "map ?f [0..<length docs] = scores" .
  then show ?case unfolding idx by simp
next
  case (Suc n)
  let ?bm = "BM25Okapi_init docs k1 b"
  let ?den = "\<lambda>j. (if avg_len docs \<noteq> 0
                   then real (tf docs t j)
                          + k1 * (1 - b + b * real (length (docs ! j)) / avg_len docs)
                   else real (tf docs t j) + k1)"
  let ?c = "\<lambda>j. v * (real (tf docs t j) * (k1 + 1)) / ?den j"
  from Suc.hyps(2) have lt: "idx < length docs" by simp
  then have dr: "drop idx (map Counter docs) = Counter (docs ! idx) # drop (Suc idx) (map Counter docs)"
    by (simp add: Cons_nth_drop_Suc[symmetric])
  have tfq: "dict_get (Counter (docs ! idx)) t 0 = tf docs t idx"
    by (simp add: Counter_get tf_def)
  have den: "?den idx \<noteq> 0"
    using denom_pos[OF assms, of docs "tf docs t idx" "length (docs ! idx)"] by simp
  have den1: "avg_len docs \<noteq> 0 \<Longrightarrow>
      real (tf docs t idx) + k1 * (1 - b + b * real (length (docs ! idx)) / avg_len docs) \<noteq> 0"
    and den2: "avg_len docs = 0 \<Longrightarrow> real (tf docs t idx) + k1 \<noteq> 0"
    using den by (simp_all split: if_splits)
  let ?scores' = "scores[idx := scores ! idx + ?c idx]"
  have step: "score_docs ?bm t v idx (drop idx (map Counter docs)) scores
      = score_docs ?bm t v (Suc idx) (drop (Suc idx) (map Counter docs))
          (if tf docs t idx = 0 then scores else ?scores')"
    using lt den1 den2 Suc.prems(2)
    by (simp add: dr tfq init_fields Let_def)
  have same: "(if tf docs t idx = 0 then scores else ?scores') = ?scores'"
    using lt Suc.prems(2) by (simp add: list_update_same_conv)
  have IH: "score_docs ?bm t v (Suc idx) (drop (Suc idx) (map Counter docs)) ?scores'
      = Inr (map (\<lambda>j. ?scores' ! j + (if Suc idx \<le> j then ?c j else 0)) [0..<length docs])"
    using Suc.hyps(2) lt Suc.prems(2) by (intro Suc.hyps(1)) simp_all
  have "map (\<lambda>j. ?scores' ! j + (if Suc idx \<le> j then ?c j else 0)) [0..<length docs]
      = map (\<lambda>j. scores ! j + (if idx \<le> j then ?c j else 0)) [0..<length docs]"
  proof (rule map_cong[OF refl])
    fix j assume "j \<in> set [0..<length docs]"
    then have "j < length scores" using Suc.prems(2) by simp
    then show "?scores' ! j + (if Suc idx \<le> j then ?c j else 0)
        = scores ! j + (if idx \<le> j then ?c j else 0)"
      by (cases "j = idx") (auto simp: nth_list_update)
  qed
  then show ?case using step same IH by simp
qed

lemma term_score_df_zero:
  "df docs t = 0 \<Longrightarrow> i < length docs \<Longrightarrow> term_score docs k1 b t i = 0"
  by (simp add: term_score_def df_zero_tf)

lemma term_score_absent:
  "t \<notin> set (docs ! i) \<Longrightarrow> term_score docs k1 b t i = 0"
  by (simp add: term_score_def tf_def)

lemma idf_arg_pos:
  "0 < 1 + (real (length docs) - real (df docs t) + 0.5) / (real (df docs t) + 0.5)"
proof -
  have "0 \<le> real (length docs) - real (df docs t)"
    using df_le[of docs t] by simp
  then have "0 \<le> (real (length docs) - real (df docs t) + 0.5) / (real (df docs t) + 0.5)"
    by simp
  then show ?thesis by linarith
qed

lemma score_terms_built:
  assumes "0 < k1" "0 \<le> b" "b < 1"
  shows "length scores = length docs \<Longrightarrow>
     score_terms (BM25Okapi_init docs k1 b) q scores
       = Inr (map (\<lambda>j. scores ! j + lexical_score docs k1 b q j) [0..<length docs])"
proof (induction q arbitrary: scores)
  case Nil
  have "map (\<lambda>j. scores ! j + lexical_score docs k1 b [] j) [0..<length docs]
          = map (\<lambda>j. scores ! j) [0..<length docs]"
    by (rule map_cong[OF refl]) (simp add: lexical_score_def)
  also have "\<dots> = scores" using Nil map_nth[of scores] by simp
  finally show ?case by simp
next
  case (Cons t q)
  let ?bm = "BM25Okapi_init docs k1 b"
  show ?case
  proof (cases "df docs t = 0")
    case True
    have "map (\<lambda>j. scores ! j + lexical_score docs k1 b (t # q) j) [0..<length docs]
            = map (\<lambda>j. scores ! j + lexical_score docs k1 b q j) [0..<length docs]"
      by (rule map_cong[OF refl]) (simp add: lexical_score_def term_score_df_zero[OF True])
    then show ?thesis using True Cons.IH[OF Cons.prems]
      by (simp add: init_fields)
  next
    case False
    let ?x = "1 + (real (length docs) - real (df docs t) + 0.5) / (real (df docs t) + 0.5)"
    let ?scores' = "map (\<lambda>j. scores ! j + term_score docs k1 b t j) [0..<length docs]"
    have x: "\<not> ?x \<le> 0" using idf_arg_pos[of docs t] by simp
    have inner: "score_docs ?bm t (ln ?x) 0 (map Counter docs) scores = Inr ?scores'"
      using score_docs_built[OF assms, of 0 docs scores t "ln ?x"] Cons.prems
      by (simp add: term_score_def idf_def)
    have len: "length ?scores' = length docs" by simp
    have "map (\<lambda>j. ?scores' ! j + lexical_score docs k1 b q j) [0..<length docs]
            = map (\<lambda>j. scores ! j + lexical_score docs k1 b (t # q) j) [0..<length docs]"
      by (rule map_cong[OF refl]) (simp add: lexical_score_def)
    then have "score_terms ?bm q ?scores'
            = Inr (map (\<lambda>j. scores ! j + lexical_score docs k1 b (t # q) j) [0..<length docs])"
      using Cons.IH[OF len] by simp
    then show ?thesis using False x inner
      by (simp add: init_fields Let_def)
  qed
qed

lemma lexical_score_no_token:
  "set q \<inter> set (docs ! i) = {} \<Longrightarrow> lexical_score docs k1 b q i = 0"
  unfolding lexical_score_def
  by (induction q) (simp_all add: term_score_absent)

subsection \<open>Tokens and the two searches\<close>

lemma upper_not_space: "c \<in> set ''ABCDEFGHIJKLMNOPQRSTUVWXYZ'' \<Longrightarrow> \<not> is_space c"
  by (auto simp: is_space_def)

lemma lower_char_space: "is_space c \<Longrightarrow> lower_char c = c"
proof -
  assume "is_space c"
  then have "c \<notin> set ''ABCDEFGHIJKLMNOPQRSTUVWXYZ''"
    using upper_not_space by blast
  then have "map_of (zip ''ABCDEFGHIJKLMNOPQRSTUVWXYZ'' ''abcdefghijklmnopqrstuvwxyz'') c = None"
    by (subst map_of_zip_is_None) simp_all
  then show ?thesis by (simp only: lower_char_def option.case)
qed

lemma split_from_spaces: "\<forall>c\<in>set s. is_space c \<Longrightarrow> split_from [] s = []"
  by (induction s) simp_all

lemma no_tokens: "\<forall>c\<in>set query. is_space c \<Longrightarrow> split (lower query) = []"
proof -
  assume a: "\<forall>c\<in>set query. is_space c"
  then have "lower query = query"
    by (simp add: lower_def lower_char_space map_idI)
  then show ?thesis using a by (simp add: split_def split_from_spaces)
qed

lemma score_terms_Nil_get_scores:
  "get_scores index [] = Inr (if corpus_size index = 0 then [] else replicate (corpus_size index) 0)"
  by (simp add: get_scores_def)

lemma bm25_hits_no_positive:
  "\<forall>i\<in>set idxs. i < length scores \<Longrightarrow> \<forall>x\<in>set scores. x \<le> 0 \<Longrightarrow>
     bm25_hits scores docs idxs = Inr []"
proof (induction idxs)
  case Nil
  then show ?case by simp
next
  case (Cons i idxs)
  then have i: "i < length scores" by simp
  then have "scores ! i \<le> 0" using Cons.prems(2) by simp
  then have "\<not> 0 < scores ! i" by simp
  then show ?case using Cons i by simp
qed

lemma set_slice_from: "set (slice_from n xs) \<subseteq> set xs"
  by (auto simp: slice_from_def dest: in_set_dropD)

lemma build_fields:
  "build_bm25_index ext self = Inr self' \<Longrightarrow>
     vector_weight self' = vector_weight self \<and> bm25_weight self' = bm25_weight self
     \<and> bm25_index self' \<noteq> None"
  by (auto simp: build_bm25_index_def Let_def split: sum.splits)

lemma bm25_search_weights:
  "vector_weight (snd (bm25_search ext self query top_k)) = vector_weight self
   \<and> bm25_weight (snd (bm25_search ext self query top_k)) = bm25_weight self"
proof (cases "bm25_index self")
  case None
  show ?thesis
  proof (cases "build_bm25_index ext self")
    case (Inl e)
    then show ?thesis using None by (simp add: bm25_search_def)
  next
    case (Inr self')
    then show ?thesis using None build_fields[OF Inr]
      by (auto simp: bm25_search_def Let_def split: option.splits sum.splits)
  qed
next
  case (Some index)
  then show ?thesis
    by (auto simp: bm25_search_def Let_def split: sum.splits)
qed

lemma bm25_search_again:
  "bm25_search ext (snd (bm25_search ext self query top_k)) query top_k
     = bm25_search ext self query top_k"
proof (cases "bm25_index self")
  case None
  show ?thesis
  proof (cases "build_bm25_index ext self")
    case (Inl e)
    then show ?thesis using None by (simp add: bm25_search_def)
  next
    case (Inr self')
    then obtain index where idx: "bm25_index self' = Some index"
      using build_fields[OF Inr] by auto
    have first: "bm25_search ext self query top_k
        = (case get_scores index (split (lower query)) of
             Inl e \<Rightarrow> (Inl e, self')
           | Inr scores \<Rightarrow>
               (bm25_hits scores (documents self')
                  (rev (slice_from (- top_k) (argsort ext scores))), self'))"
      using None Inr idx by (simp add: bm25_search_def Let_def split: sum.splits)
    then have st: "snd (bm25_search ext self query top_k) = self'"
      by (simp split: sum.splits)
    have "bm25_search ext self' query top_k
        = (case get_scores index (split (lower query)) of
             Inl e \<Rightarrow> (Inl e, self')
           | Inr scores \<Rightarrow>
               (bm25_hits scores (documents self')
                  (rev (slice_from (- top_k) (argsort ext scores))), self'))"
      using idx by (simp add: bm25_search_def Let_def split: sum.splits)
    then show ?thesis using first st by simp
  qed
next
  case (Some index)
  then have "snd (bm25_search ext self query top_k) = self"
    by (simp add: bm25_search_def Let_def split: sum.splits)
  then show ?thesis by simp
qed

lemma search_state: "snd (search ext self query top_k) = snd (bm25_search ext self query top_k)"
  by (simp add: search_def Let_def split: prod.splits sum.splits)

lemma search_unfold:
  "fst (search ext self query top_k) =
     (case vector_search ext query top_k of
        Inl e \<Rightarrow> Inl e
      | Inr vector_results \<Rightarrow>
         (case fst (bm25_search ext self query top_k) of
            Inl e \<Rightarrow> Inl e
          | Inr bm25_results \<Rightarrow>
              reciprocal_rank_fusion (hash ext) (vector_weight self) (bm25_weight self)
                vector_results bm25_results top_k 60))"
  using bm25_search_weights[of ext self query top_k]
  by (auto simp: search_def Let_def split: prod.splits sum.splits)

lemma fused_keys:
  assumes "\<And>key. key \<in> set (map fst S) \<Longrightarrow> h (dict_get C key []) = key"
  shows "map (\<lambda>r. h (content r)) (map (fused_entry (S, C, M)) (slice_to top_k (sorted_keys S)))
           = slice_to top_k (sorted_keys S)"
proof -
  have "map (\<lambda>r. h (content r)) (map (fused_entry (S, C, M)) (slice_to top_k (sorted_keys S)))
          = map (\<lambda>key. key) (slice_to top_k (sorted_keys S))"
    unfolding map_map
  proof (rule map_cong[OF refl])
    fix key assume "key \<in> set (slice_to top_k (sorted_keys S))"
    then have "key \<in> set (map fst S)"
      using set_slice_to[of top_k "sorted_keys S"] by (auto simp: set_sorted_keys)
    then show "((\<lambda>r. h (content r)) \<circ> fused_entry (S, C, M)) key = key"
      using assms by (simp add: fused_entry_sel)
  qed
  then show ?thesis by simp
qed

lemma distinct_sorted_keys: "distinct (map fst S) \<Longrightarrow> distinct (sorted_keys S)"
proof -
  assume "distinct (map fst S)"
  then have "distinct (map fst (sort_key snd (rev S)))"
    by (simp add: distinct_map inj_on_def)
  then show ?thesis by (simp add: sorted_keys_def sorted_reverse_def rev_map[symmetric])
qed

lemma distinct_slice_to: "distinct xs \<Longrightarrow> distinct (slice_to n xs)"
  by (simp add: slice_to_def)

lemma rrf_returns:
  "0 \<le> k \<Longrightarrow> \<exists>rs. reciprocal_rank_fusion h wv wb V B top_k k = Inr rs"
  using rrf_char[of k h wv wb V B top_k] by metis

lemma bm25_rank_blank:
  assumes "split (lower query) = []"
    and "\<forall>scores. \<forall>i\<in>set (argsort ext scores). i < length scores"
  shows "(case get_scores bm (split (lower query)) of
             Inl e \<Rightarrow> (Inl e, s)
           | Inr scores \<Rightarrow>
               (bm25_hits scores (documents s)
                  (rev (slice_from (- top_k) (argsort ext scores))), s)) = (Inr [], s)"
proof -
  have hits: "bm25_hits scores docs (rev (slice_from (- top_k) (argsort ext scores))) = Inr []"
    if "\<forall>x\<in>set scores. x \<le> 0" for scores docs
  proof (rule bm25_hits_no_positive[OF _ that])
    show "\<forall>i\<in>set (rev (slice_from (- top_k) (argsort ext scores))). i < length scores"
      using assms(2) set_slice_from[of "- top_k" "argsort ext scores"] by auto
  qed
  show ?thesis
    by (simp add: assms(1) score_terms_Nil_get_scores hits)
qed

text \<open>The definitions that evaluate the model on a concrete input.\<close>

lemmas eval_defs =
  search_def vector_search_def bm25_search_def build_bm25_index_def BM25Okapi_init_def
  Counter_def increment_def count_doc_terms_def dict_set_def dict_get_def dict_lookup_def
  get_scores_def lower_def lower_char_def split_def is_space_def slice_from_def slice_to_def
  reciprocal_rank_fusion_def sorted_keys_def sorted_reverse_def make_result_def Let_def upt_rec

lemmas eval_fl_defs =
  reciprocal_rank_fusion_fl_def make_result_fl_def sorted_keys_fl_def exact_arith_def
  dict_set_def dict_get_def dict_lookup_def slice_to_def sorted_reverse_def Let_def

section \<open>The lexical score\<close>

text \<open>
  Claim C2. For an index built from a corpus of \<open>N\<close> documents, with \<open>k1 > 0\<close> and
  \<open>0 \<le> b < 1\<close> (the defaults are 1.5 and 0.75), \<open>get_scores\<close> returns for every query the
  list whose entry \<open>i\<close> is the sum over the query's terms \<open>t\<close> of
  \<open>idf(t) \<cdot> tf(t,i) \<cdot> (k1 + 1) / (tf(t,i) + k1 \<cdot> (1 - b + b \<cdot> len(i) / avgLen))\<close>, with
  \<open>idf(t) = ln (1 + (N - df(t) + 0.5) / (df(t) + 0.5))\<close> and the denominator \<open>tf(t,i) + k1\<close>
  when \<open>avgLen = 0\<close>. A term with \<open>df(t) = 0\<close> contributes 0 to every document, and a
  document that contains none of the query's tokens has the score 0.
\<close>

theorem get_scores_formula:
  assumes "0 < k1" "0 \<le> b" "b < 1"
  shows "get_scores (BM25Okapi_init docs k1 b) q
           = Inr (map (lexical_score docs k1 b q) [0..<length docs])
         \<and> (\<forall>t. \<forall>i<length docs. df docs t = 0 \<longrightarrow> term_score docs k1 b t i = 0)
         \<and> (\<forall>i<length docs. set q \<inter> set (docs ! i) = {} \<longrightarrow> lexical_score docs k1 b q i = 0)"
proof -
  have "get_scores (BM25Okapi_init docs k1 b) q
           = Inr (map (lexical_score docs k1 b q) [0..<length docs])"
  proof (cases "length docs = 0")
    case True
    then show ?thesis by (simp add: get_scores_def init_fields)
  next
    case False
    have "map (\<lambda>j. replicate (length docs) 0 ! j + lexical_score docs k1 b q j) [0..<length docs]
            = map (lexical_score docs k1 b q) [0..<length docs]"
      by (rule map_cong[OF refl]) simp
    then show ?thesis
      using False score_terms_built[OF assms, of "replicate (length docs) 0" docs q]
      by (simp add: get_scores_def init_fields)
  qed
  then show ?thesis
    by (simp add: term_score_df_zero lexical_score_no_token)
qed

theorem get_scores_formula_witness:
  "(0::real) < 3/2 \<and> (0::real) \<le> 3/4 \<and> (3/4::real) < 1
   \<and> get_scores
        (BM25Okapi_init
           [[''the'', ''gpu'', ''is'', ''fast''], [''the'', ''cpu'', ''is'', ''slow''],
            [''ssd'', ''storage'', ''speed'']] (3/2) (3/4))
        [''fast'', ''gpu'']
      = Inr [ln (8/3) * (5/2) / (229/88) + ln (8/3) * (5/2) / (229/88), 0, 0]
   \<and> df [[''the'', ''gpu'', ''is'', ''fast''], [''the'', ''cpu'', ''is'', ''slow''],
            [''ssd'', ''storage'', ''speed'']] ''ram'' = 0
   \<and> term_score [[''the'', ''gpu'', ''is'', ''fast''], [''the'', ''cpu'', ''is'', ''slow''],
            [''ssd'', ''storage'', ''speed'']] (3/2) (3/4) ''ram'' 0 = 0
   \<and> set [''fast'', ''gpu'']
         \<inter> set ([[''the'', ''gpu'', ''is'', ''fast''], [''the'', ''cpu'', ''is'', ''slow''],
            [''ssd'', ''storage'', ''speed'']] ! 1) = {}
   \<and> lexical_score [[''the'', ''gpu'', ''is'', ''fast''], [''the'', ''cpu'', ''is'', ''slow''],
            [''ssd'', ''storage'', ''speed'']] (3/2) (3/4) [''fast'', ''gpu''] 1 = 0"
proof -
  let ?docs = "[[''the'', ''gpu'', ''is'', ''fast''], [''the'', ''cpu'', ''is'', ''slow''],
            [''ssd'', ''storage'', ''speed'']]"
  have h: "(0::real) < 3/2" "(0::real) \<le> 3/4" "(3/4::real) < 1" by simp_all
  note inst = get_scores_formula[OF h, of ?docs "[''fast'', ''gpu'']"]
  have upt3: "[0..<length ?docs] = [0, 1, 2]"
    by (simp add: upt_rec)
  have ev: "map (lexical_score ?docs (3/2) (3/4) [''fast'', ''gpu'']) [0, 1, 2]
        = [ln (8/3) * (5/2) / (229/88) + ln (8/3) * (5/2) / (229/88), 0, 0]"
    by (simp add: lexical_score_def term_score_def tf_def df_def idf_def avg_len_def)
  have g: "get_scores (BM25Okapi_init ?docs (3/2) (3/4)) [''fast'', ''gpu'']
      = Inr [ln (8/3) * (5/2) / (229/88) + ln (8/3) * (5/2) / (229/88), 0, 0]"
    using inst unfolding upt3 ev by (rule conjunct1)
  have d: "df ?docs ''ram'' = 0"
    by (simp add: df_def)
  have n: "set [''fast'', ''gpu''] \<inter> set (?docs ! 1) = {}"
    by simp
  have i0: "0 < length ?docs" and i1: "1 < length ?docs"
    by simp_all
  from inst have "\<forall>t. \<forall>i<length ?docs. df ?docs t = 0 \<longrightarrow> term_score ?docs (3/2) (3/4) t i = 0"
    by (rule conjunct1[OF conjunct2])
  then have t: "term_score ?docs (3/2) (3/4) ''ram'' 0 = 0"
    using d i0 by blast
  from inst have "\<forall>i<length ?docs. set [''fast'', ''gpu''] \<inter> set (?docs ! i) = {}
      \<longrightarrow> lexical_score ?docs (3/2) (3/4) [''fast'', ''gpu''] i = 0"
    by (rule conjunct2[OF conjunct2])
  then have l: "lexical_score ?docs (3/2) (3/4) [''fast'', ''gpu''] 1 = 0"
    using n i1 by blast
  from h g d t n l show ?thesis by (intro conjI)
qed

section \<open>The fusion step\<close>

text \<open>
  Claim C1, as amended. When no two entries of the same ranking list have the same
  fusion key (the hash of their content), the fused score of every returned document is
  the sum, over the lists that contain it, of \<open>w\<^sub>L \<cdot> 1 / (k + r + 1)\<close> with \<open>r\<close> its 0-based
  rank in the list \<open>L\<close>; a document of one list only gets that list's contribution
  alone. With \<open>top_k\<close> at least the number of entries, every document of either list is
  returned. The constant \<open>k\<close> is 60 at the engine's call and the weights default to 0.7
  and 0.3; the statement holds for every \<open>k \<ge> 0\<close> and all weights.
\<close>

theorem fusion_score_formula:
  assumes "0 \<le> k" "distinct (hit_keys h V)" "distinct (hit_keys h B)"
  shows "\<exists>rs. reciprocal_rank_fusion h wv wb V B top_k k = Inr rs \<and>
           (\<forall>r\<in>set rs. score r = contribution h wv k V (h (content r))
                                 + contribution h wb k B (h (content r))) \<and>
           (int (length V + length B) \<le> top_k \<longrightarrow>
              (\<lambda>r. h (content r)) ` set rs = set (hit_keys h V) \<union> set (hit_keys h B))"
proof -
  obtain S C M where
    res: "reciprocal_rank_fusion h wv wb V B top_k k =
       Inr (map (fused_entry (S, C, M)) (slice_to top_k (sorted_keys S)))"
    and keys: "map fst S = insert_keys [] (hit_keys h V @ hit_keys h B)"
    and val: "\<And>key. dict_get S key 0 = rrf_sum h wv k 0 V key + rrf_sum h wb k 0 B key"
    and hkey: "\<And>key. key \<in> set (map fst S) \<Longrightarrow> h (dict_get C key []) = key"
    using rrf_char[OF assms(1), of h wv wb V B top_k] by metis
  let ?rs = "map (fused_entry (S, C, M)) (slice_to top_k (sorted_keys S))"
  have sub: "set (slice_to top_k (sorted_keys S)) \<subseteq> set (map fst S)"
    using set_slice_to[of top_k "sorted_keys S"] by (simp add: set_sorted_keys)
  have sc: "\<forall>r\<in>set ?rs. score r = contribution h wv k V (h (content r))
                                 + contribution h wb k B (h (content r))"
  proof
    fix r assume "r \<in> set ?rs"
    then obtain key where "key \<in> set (slice_to top_k (sorted_keys S))"
      and r: "r = fused_entry (S, C, M) key"
      by auto
    then have key: "key \<in> set (map fst S)" using sub by blast
    show "score r = contribution h wv k V (h (content r)) + contribution h wb k B (h (content r))"
      using hkey[OF key] val[of key] assms(2,3)
      by (simp add: r fused_entry_sel rrf_sum_contribution)
  qed
  have all: "(\<lambda>r. h (content r)) ` set ?rs = set (hit_keys h V) \<union> set (hit_keys h B)"
    if "int (length V + length B) \<le> top_k"
  proof -
    have "length (sorted_keys S) = length (map fst S)" by (simp add: length_sorted_keys)
    also have "\<dots> \<le> length (hit_keys h V @ hit_keys h B)"
      unfolding keys using distinct_insert_keys[of "[]" "hit_keys h V @ hit_keys h B"]
        set_insert_keys[of "[]" "hit_keys h V @ hit_keys h B"]
      by (metis append_Nil distinct.simps(1) distinct_card card_length set_append sup_bot_left)
    finally have "int (length (sorted_keys S)) \<le> top_k"
      using that by (simp add: hit_keys_def)
    then have full: "slice_to top_k (sorted_keys S) = sorted_keys S"
      by (rule slice_to_all)
    have "(\<lambda>r. h (content r)) ` set ?rs = (\<lambda>key. h (dict_get C key [])) ` set (map fst S)"
      by (simp add: full set_sorted_keys image_image fused_entry_sel)
    also have "\<dots> = set (map fst S)"
      using hkey by (auto simp: image_iff)
    finally show ?thesis by (simp add: keys set_insert_keys)
  qed
  show ?thesis using res sc all by simp
qed

theorem fusion_score_formula_witness:
  "(0::int) \<le> 60
   \<and> distinct (hit_keys (\<lambda>c. c) [(''gpu guide'', 9/10, [(''page'', ''1'')]), (''cpu guide'', 8/10, [(''page'', ''4'')])])
   \<and> distinct (hit_keys (\<lambda>c. c) [(''cpu guide'', 2, [(''page'', ''4'')]), (''ssd guide'', 1, [(''page'', ''9'')])])
   \<and> reciprocal_rank_fusion (\<lambda>c. c) (7/10) (3/10)
         [(''gpu guide'', 9/10, [(''page'', ''1'')]), (''cpu guide'', 8/10, [(''page'', ''4'')])]
         [(''cpu guide'', 2, [(''page'', ''4'')]), (''ssd guide'', 1, [(''page'', ''9'')])] 10 60
       = Inr [\<lparr>content = ''cpu guide'', metadata = [(''page'', ''4'')],
               score = 7/10 * (1/62) + 3/10 * (1/61), source = ''hybrid''\<rparr>,
              \<lparr>content = ''gpu guide'', metadata = [(''page'', ''1'')],
               score = 7/10 * (1/61), source = ''hybrid''\<rparr>,
              \<lparr>content = ''ssd guide'', metadata = [(''page'', ''9'')],
               score = 3/10 * (1/62), source = ''hybrid''\<rparr>]
   \<and> (\<exists>rs. reciprocal_rank_fusion (\<lambda>c. c) (7/10) (3/10)
         [(''gpu guide'', 9/10, [(''page'', ''1'')]), (''cpu guide'', 8/10, [(''page'', ''4'')])]
         [(''cpu guide'', 2, [(''page'', ''4'')]), (''ssd guide'', 1, [(''page'', ''9'')])] 10 60 = Inr rs
       \<and> (\<forall>r\<in>set rs. score r =
              contribution (\<lambda>c. c) (7/10) 60
                [(''gpu guide'', 9/10, [(''page'', ''1'')]), (''cpu guide'', 8/10, [(''page'', ''4'')])] (content r)
              + contribution (\<lambda>c. c) (3/10) 60
                [(''cpu guide'', 2, [(''page'', ''4'')]), (''ssd guide'', 1, [(''page'', ''9'')])] (content r))
       \<and> content ` set rs
           = set (hit_keys (\<lambda>c. c) [(''gpu guide'', 9/10, [(''page'', ''1'')]), (''cpu guide'', 8/10, [(''page'', ''4'')])])
             \<union> set (hit_keys (\<lambda>c. c) [(''cpu guide'', 2, [(''page'', ''4'')]), (''ssd guide'', 1, [(''page'', ''9'')])]))"
proof -
  let ?V = "[(''gpu guide'', 9/10, [(''page'', ''1'')]), (''cpu guide'', 8/10, [(''page'', ''4'')])] :: hit list"
  let ?B = "[(''cpu guide'', 2, [(''page'', ''4'')]), (''ssd guide'', 1, [(''page'', ''9'')])] :: hit list"
  have k: "(0::int) \<le> 60" by simp
  have dv: "distinct (hit_keys (\<lambda>c. c) ?V)"
    by (simp add: hit_keys_def)
  have db: "distinct (hit_keys (\<lambda>c. c) ?B)"
    by (simp add: hit_keys_def)
  have ev: "reciprocal_rank_fusion (\<lambda>c. c) (7/10) (3/10) ?V ?B 10 60
       = Inr [\<lparr>content = ''cpu guide'', metadata = [(''page'', ''4'')],
               score = 7/10 * (1/62) + 3/10 * (1/61), source = ''hybrid''\<rparr>,
              \<lparr>content = ''gpu guide'', metadata = [(''page'', ''1'')],
               score = 7/10 * (1/61), source = ''hybrid''\<rparr>,
              \<lparr>content = ''ssd guide'', metadata = [(''page'', ''9'')],
               score = 3/10 * (1/62), source = ''hybrid''\<rparr>]"
    by (simp add: reciprocal_rank_fusion_def dict_set_def dict_get_def sorted_keys_def
        sorted_reverse_def slice_to_def make_result_def dict_lookup_def Let_def)
  have len: "int (length ?V + length ?B) \<le> 10"
    by simp
  from fusion_score_formula[OF k dv db, of "7/10" "3/10" 10]
  obtain rs where rs: "reciprocal_rank_fusion (\<lambda>c. c) (7/10) (3/10) ?V ?B 10 60 = Inr rs"
    and sc: "\<forall>r\<in>set rs. score r = contribution (\<lambda>c. c) (7/10) 60 ?V (content r)
                                  + contribution (\<lambda>c. c) (3/10) 60 ?B (content r)"
    and im: "int (length ?V + length ?B) \<le> 10 \<longrightarrow>
               content ` set rs = set (hit_keys (\<lambda>c. c) ?V) \<union> set (hit_keys (\<lambda>c. c) ?B)"
    by (elim exE conjE)
  from im len have "content ` set rs = set (hit_keys (\<lambda>c. c) ?V) \<union> set (hit_keys (\<lambda>c. c) ?B)"
    by (rule mp)
  with rs sc have "\<exists>rs. reciprocal_rank_fusion (\<lambda>c. c) (7/10) (3/10) ?V ?B 10 60 = Inr rs
       \<and> (\<forall>r\<in>set rs. score r = contribution (\<lambda>c. c) (7/10) 60 ?V (content r)
                                  + contribution (\<lambda>c. c) (3/10) 60 ?B (content r))
       \<and> content ` set rs = set (hit_keys (\<lambda>c. c) ?V) \<union> set (hit_keys (\<lambda>c. c) ?B)"
    by (intro exI[of _ rs] conjI)
  with k dv db ev show ?thesis by (intro conjI)
qed

text \<open>
  The claim as first stated, for every pair of lists, fails where a list holds two
  entries with the same content: the two are fused into one entry whose score is the sum
  of both ranks' contributions, not the contribution of the document's rank.
\<close>

theorem fusion_score_duplicate_counterexample:
  "reciprocal_rank_fusion (\<lambda>c. c) (7/10) (3/10)
     [(''reset steps'', 9/10, [(''page'', ''1'')]), (''reset steps'', 8/10, [(''page'', ''3'')])]
     [] 5 60
   = Inr [\<lparr>content = ''reset steps'', metadata = [(''page'', ''3'')],
           score = 7/10 * (1/61) + 7/10 * (1/62), source = ''hybrid''\<rparr>]
   \<and> contribution (\<lambda>c. c) (7/10) 60
        [(''reset steps'', 9/10, [(''page'', ''1'')]), (''reset steps'', 8/10, [(''page'', ''3'')])]
        ''reset steps''
       + contribution (\<lambda>c. c) (3/10) 60 [] ''reset steps''
     = 7/10 * (1/61)
   \<and> (7/10 * (1/61) + 7/10 * (1/62) :: real) \<noteq> 7/10 * (1/61)
   \<and> (7/10 * (1/61) + 7/10 * (1/62) :: real) \<noteq> 7/10 * (1/62)"
  by (simp add: reciprocal_rank_fusion_def dict_set_def dict_get_def sorted_keys_def
      sorted_reverse_def slice_to_def make_result_def dict_lookup_def Let_def
      contribution_def hit_keys_def)

text \<open>
  Claim C5. Whatever the float arithmetic, the fused list is sorted by the fused score
  that the code has computed, highest first, and of two results whose computed scores
  are equal the one that comes first is the one whose list of origin comes first (the
  vector list before the lexical list) or, in the same list, the one of lower rank. The
  statement is about the floats of the code, not about the exact values of the formula:
  two documents whose exact scores are equal and whose floats differ are in the order of
  their floats, as in the second example of the witness.
\<close>

theorem fusion_sorted_tie_break:
  assumes "0 \<le> k"
  shows "\<exists>rs. reciprocal_rank_fusion_fl ar h wv wb V B top_k k = Inr rs \<and>
           sorted_wrt (\<lambda>a b. score b < score a \<or>
              (score a = score b \<and>
               tie_break_before (hit_keys h V) (hit_keys h B) (h (content a)) (h (content b)))) rs"
proof -
  let ?ks = "hit_keys h V @ hit_keys h B"
  let ?idx = "index_of ?ks"
  obtain S C M where
    res: "reciprocal_rank_fusion_fl ar h wv wb V B top_k k =
       Inr (map (fused_entry_fl ar (S, C, M)) (slice_to top_k (sorted_keys_fl ar S)))"
    and keys: "map fst S = insert_keys [] ?ks"
    and hkey: "\<And>key. key \<in> set (map fst S) \<Longrightarrow> h (dict_get C key []) = key"
    using rrf_fl_char[OF assms, of ar h wv wb V B top_k] by metis
  let ?f = "\<lambda>entry. fl_value ar (snd entry)"
  let ?E = "sorted_reverse ?f S"
  let ?R = "\<lambda>a b. score b < score a \<or>
              (score a = score b \<and>
               tie_break_before (hit_keys h V) (hit_keys h B) (h (content a)) (h (content b)))"
  have dist: "distinct (map fst S)"
    by (simp add: keys distinct_insert_keys)
  have setS: "set (map fst S) = set ?ks"
    by (simp add: keys set_insert_keys)
  have "sorted_wrt (\<lambda>a b. ?idx a < ?idx b) (map fst S)"
    unfolding keys by (rule insert_keys_ordered)
  then have "sorted_wrt (\<lambda>a b. ?idx (fst a) < ?idx (fst b)) S"
    by (simp add: sorted_wrt_map)
  then have E: "sorted_wrt (\<lambda>a b. ?f b < ?f a \<or> (?f a = ?f b \<and> ?idx (fst a) < ?idx (fst b))) ?E"
    by (rule sorted_reverse_stable)
  have "sorted_wrt (\<lambda>a b. ?R (fused_entry_fl ar (S, C, M) (fst a))
                            (fused_entry_fl ar (S, C, M) (fst b))) ?E"
  proof (rule sorted_wrt_mono_rel[OF _ E])
    fix a b
    assume a: "a \<in> set ?E" and b: "b \<in> set ?E"
      and ab: "?f b < ?f a \<or> (?f a = ?f b \<and> ?idx (fst a) < ?idx (fst b))"
    from a b have inS: "a \<in> set S" "b \<in> set S" by (simp_all add: set_sorted_reverse)
    then have sa: "dict_get S (fst a) (fl_zero ar) = snd a"
      and sb: "dict_get S (fst b) (fl_zero ar) = snd b"
      using dist
      by (simp_all add: dict_get_entry[of S "fst a" "snd a"] dict_get_entry[of S "fst b" "snd b"])
    from inS have ka: "fst a \<in> set (map fst S)" and kb: "fst b \<in> set (map fst S)" by auto
    have "tie_break_before (hit_keys h V) (hit_keys h B) (fst a) (fst b)"
      if "?idx (fst a) < ?idx (fst b)"
      using that ka setS by (intro tie_break_before_index) simp_all
    then show "?R (fused_entry_fl ar (S, C, M) (fst a)) (fused_entry_fl ar (S, C, M) (fst b))"
      using ab sa sb hkey[OF ka] hkey[OF kb] by (auto simp: fused_entry_fl_sel)
  qed
  then have "sorted_wrt ?R (map (fused_entry_fl ar (S, C, M)) (sorted_keys_fl ar S))"
    by (simp add: sorted_keys_fl_def sorted_wrt_map)
  then have "sorted_wrt ?R (slice_to top_k (map (fused_entry_fl ar (S, C, M)) (sorted_keys_fl ar S)))"
    by (rule sorted_wrt_slice_to)
  then show ?thesis using res by (simp add: slice_to_map)
qed

theorem fusion_sorted_tie_break_witness:
  "(0::int) \<le> 60
   \<and> reciprocal_rank_fusion_fl exact_arith (\<lambda>c. c) (61/100) (63/100)
         [(''gpu guide'', 9/10, [(''page'', ''1'')]), (''cpu guide'', 8/10, [(''page'', ''4'')])]
         [(''ssd guide'', 3, [(''page'', ''9'')]), (''cpu guide'', 2, [(''page'', ''4'')]),
          (''gpu guide'', 1, [(''page'', ''1'')])] 5 60
       = Inr [\<lparr>content = ''gpu guide'', metadata = [(''page'', ''1'')],
               score = 1/50, source = ''hybrid''\<rparr>,
              \<lparr>content = ''cpu guide'', metadata = [(''page'', ''4'')],
               score = 1/50, source = ''hybrid''\<rparr>,
              \<lparr>content = ''ssd guide'', metadata = [(''page'', ''9'')],
               score = 63/6100, source = ''hybrid''\<rparr>]
   \<and> reciprocal_rank_fusion_fl truncating_arith (\<lambda>c. c) (61/100) (63/100)
         [(''gpu guide'', 9/10, [(''page'', ''1'')]), (''cpu guide'', 8/10, [(''page'', ''4'')])]
         [(''ssd guide'', 3, [(''page'', ''9'')]), (''cpu guide'', 2, [(''page'', ''4'')]),
          (''gpu guide'', 1, [(''page'', ''1'')])] 5 60
       = Inr [\<lparr>content = ''cpu guide'', metadata = [(''page'', ''4'')],
               score = 19/1000, source = ''hybrid''\<rparr>,
              \<lparr>content = ''gpu guide'', metadata = [(''page'', ''1'')],
               score = 18/1000, source = ''hybrid''\<rparr>,
              \<lparr>content = ''ssd guide'', metadata = [(''page'', ''9'')],
               score = 10/1000, source = ''hybrid''\<rparr>]
   \<and> sorted_wrt (\<lambda>a b. score b < score a \<or>
              (score a = score b \<and>
               tie_break_before [''gpu guide'', ''cpu guide''] [''ssd guide'', ''cpu guide'', ''gpu guide'']
                 (content a) (content b)))
         [\<lparr>content = ''gpu guide'', metadata = [(''page'', ''1'')],
               score = 1/50, source = ''hybrid''\<rparr>,
              \<lparr>content = ''cpu guide'', metadata = [(''page'', ''4'')],
               score = 1/50, source = ''hybrid''\<rparr>,
              \<lparr>content = ''ssd guide'', metadata = [(''page'', ''9'')],
               score = 63/6100, source = ''hybrid''\<rparr>]
   \<and> sorted_wrt (\<lambda>a b. score b < score a \<or>
              (score a = score b \<and>
               tie_break_before [''gpu guide'', ''cpu guide''] [''ssd guide'', ''cpu guide'', ''gpu guide'']
                 (content a) (content b)))
         [\<lparr>content = ''cpu guide'', metadata = [(''page'', ''4'')],
               score = 19/1000, source = ''hybrid''\<rparr>,
              \<lparr>content = ''gpu guide'', metadata = [(''page'', ''1'')],
               score = 18/1000, source = ''hybrid''\<rparr>,
              \<lparr>content = ''ssd guide'', metadata = [(''page'', ''9'')],
               score = 10/1000, source = ''hybrid''\<rparr>]"
proof -
  let ?V = "[(''gpu guide'', 9/10, [(''page'', ''1'')]), (''cpu guide'', 8/10, [(''page'', ''4'')])] :: hit list"
  let ?B = "[(''ssd guide'', 3, [(''page'', ''9'')]), (''cpu guide'', 2, [(''page'', ''4'')]),
          (''gpu guide'', 1, [(''page'', ''1'')])] :: hit list"
  let ?exact = "[\<lparr>content = ''gpu guide'', metadata = [(''page'', ''1'')],
               score = 1/50, source = ''hybrid''\<rparr>,
              \<lparr>content = ''cpu guide'', metadata = [(''page'', ''4'')],
               score = 1/50, source = ''hybrid''\<rparr>,
              \<lparr>content = ''ssd guide'', metadata = [(''page'', ''9'')],
               score = 63/6100, source = ''hybrid''\<rparr>]"
  let ?trunc = "[\<lparr>content = ''cpu guide'', metadata = [(''page'', ''4'')],
               score = 19/1000, source = ''hybrid''\<rparr>,
              \<lparr>content = ''gpu guide'', metadata = [(''page'', ''1'')],
               score = 18/1000, source = ''hybrid''\<rparr>,
              \<lparr>content = ''ssd guide'', metadata = [(''page'', ''9'')],
               score = 10/1000, source = ''hybrid''\<rparr>]"
  let ?R = "\<lambda>a b. score b < score a \<or>
              (score a = score b \<and>
               tie_break_before [''gpu guide'', ''cpu guide''] [''ssd guide'', ''cpu guide'', ''gpu guide'']
                 (content a) (content b))"
  have k: "(0::int) \<le> 60" by simp
  have kv: "hit_keys (\<lambda>c. c) ?V = [''gpu guide'', ''cpu guide'']"
    and kb: "hit_keys (\<lambda>c. c) ?B = [''ssd guide'', ''cpu guide'', ''gpu guide'']"
    by (simp_all add: hit_keys_def)
  have e1: "reciprocal_rank_fusion_fl exact_arith (\<lambda>c. c) (61/100) (63/100) ?V ?B 5 60 = Inr ?exact"
    by (simp add: eval_fl_defs)
  have e2: "reciprocal_rank_fusion_fl truncating_arith (\<lambda>c. c) (61/100) (63/100) ?V ?B 5 60 = Inr ?trunc"
    by code_simp
  from fusion_sorted_tie_break[OF k, of exact_arith "\<lambda>c. c" "61/100" "63/100" ?V ?B 5]
  have s1: "sorted_wrt ?R ?exact"
    unfolding e1 kv kb by (elim exE conjE) (simp only: sum.inject simp_thms)
  from fusion_sorted_tie_break[OF k, of truncating_arith "\<lambda>c. c" "61/100" "63/100" ?V ?B 5]
  have s2: "sorted_wrt ?R ?trunc"
    unfolding e2 kv kb by (elim exE conjE) (simp only: sum.inject simp_thms)
  from k e1 e2 s1 s2 show ?thesis by (intro conjI)
qed

text \<open>
  Claim C6, as amended. The fusion accumulates the contributions per fusion key, the
  hash of the content: the output has at most one entry for a key, and the score of an
  entry is the sum of the contributions of every row, of either list, whose content has
  that key. Rows with the same content, and rows whose contents collide under the hash,
  are therefore fused into one entry.
\<close>

theorem fusion_keyed_by_content_hash:
  assumes "0 \<le> k"
  shows "\<exists>rs. reciprocal_rank_fusion h wv wb V B top_k k = Inr rs
           \<and> distinct (map (\<lambda>r. h (content r)) rs)
           \<and> (\<forall>r\<in>set rs. score r = rrf_sum h wv k 0 V (h (content r))
                                    + rrf_sum h wb k 0 B (h (content r)))"
proof -
  obtain S C M where
    res: "reciprocal_rank_fusion h wv wb V B top_k k =
       Inr (map (fused_entry (S, C, M)) (slice_to top_k (sorted_keys S)))"
    and keys: "map fst S = insert_keys [] (hit_keys h V @ hit_keys h B)"
    and val: "\<And>key. dict_get S key 0 = rrf_sum h wv k 0 V key + rrf_sum h wb k 0 B key"
    and hkey: "\<And>key. key \<in> set (map fst S) \<Longrightarrow> h (dict_get C key []) = key"
    using rrf_char[OF assms, of h wv wb V B top_k] by metis
  let ?rs = "map (fused_entry (S, C, M)) (slice_to top_k (sorted_keys S))"
  have ks: "map (\<lambda>r. h (content r)) ?rs = slice_to top_k (sorted_keys S)"
    using hkey by (rule fused_keys)
  have "distinct (map fst S)" by (simp add: keys distinct_insert_keys)
  then have d: "distinct (map (\<lambda>r. h (content r)) ?rs)"
    unfolding ks by (intro distinct_slice_to distinct_sorted_keys)
  have sc: "\<forall>r\<in>set ?rs. score r = rrf_sum h wv k 0 V (h (content r))
                                    + rrf_sum h wb k 0 B (h (content r))"
  proof
    fix r assume "r \<in> set ?rs"
    then obtain key where "key \<in> set (slice_to top_k (sorted_keys S))"
      and r: "r = fused_entry (S, C, M) key"
      by auto
    then have key: "key \<in> set (map fst S)"
      using set_slice_to[of top_k "sorted_keys S"] by (auto simp: set_sorted_keys)
    show "score r = rrf_sum h wv k 0 V (h (content r)) + rrf_sum h wb k 0 B (h (content r))"
      using hkey[OF key] val[of key] by (simp add: r fused_entry_sel)
  qed
  show ?thesis using res d sc by blast
qed

theorem fusion_keyed_by_content_hash_witness:
  "(0::int) \<le> 60
   \<and> reciprocal_rank_fusion (\<lambda>c. c) (7/10) (3/10)
       [(''reset steps'', 9/10, [(''page'', ''1'')]), (''gpu guide'', 8/10, [(''page'', ''2'')]),
        (''reset steps'', 7/10, [(''page'', ''3'')])]
       [(''reset steps'', 2, [(''page'', ''7'')])] 5 60
     = Inr [\<lparr>content = ''reset steps'', metadata = [(''page'', ''7'')],
             score = 7/10 * (1/61) + 7/10 * (1/63) + 3/10 * (1/61), source = ''hybrid''\<rparr>,
            \<lparr>content = ''gpu guide'', metadata = [(''page'', ''2'')],
             score = 7/10 * (1/62), source = ''hybrid''\<rparr>]
   \<and> (\<exists>rs. reciprocal_rank_fusion (\<lambda>c. c) (7/10) (3/10)
       [(''reset steps'', 9/10, [(''page'', ''1'')]), (''gpu guide'', 8/10, [(''page'', ''2'')]),
        (''reset steps'', 7/10, [(''page'', ''3'')])]
       [(''reset steps'', 2, [(''page'', ''7'')])] 5 60 = Inr rs
       \<and> distinct (map content rs)
       \<and> (\<forall>r\<in>set rs. score r =
             rrf_sum (\<lambda>c. c) (7/10) 60 0
               [(''reset steps'', 9/10, [(''page'', ''1'')]), (''gpu guide'', 8/10, [(''page'', ''2'')]),
                (''reset steps'', 7/10, [(''page'', ''3'')])] (content r)
             + rrf_sum (\<lambda>c. c) (3/10) 60 0 [(''reset steps'', 2, [(''page'', ''7'')])] (content r)))"
proof -
  have k: "(0::int) \<le> 60" by simp
  have ev: "reciprocal_rank_fusion (\<lambda>c. c) (7/10) (3/10)
       [(''reset steps'', 9/10, [(''page'', ''1'')]), (''gpu guide'', 8/10, [(''page'', ''2'')]),
        (''reset steps'', 7/10, [(''page'', ''3'')])]
       [(''reset steps'', 2, [(''page'', ''7'')])] 5 60
     = Inr [\<lparr>content = ''reset steps'', metadata = [(''page'', ''7'')],
             score = 7/10 * (1/61) + 7/10 * (1/63) + 3/10 * (1/61), source = ''hybrid''\<rparr>,
            \<lparr>content = ''gpu guide'', metadata = [(''page'', ''2'')],
             score = 7/10 * (1/62), source = ''hybrid''\<rparr>]"
    by (simp add: eval_defs)
  from fusion_keyed_by_content_hash[OF k, of "\<lambda>c. c" "7/10" "3/10"
      "[(''reset steps'', 9/10, [(''page'', ''1'')]), (''gpu guide'', 8/10, [(''page'', ''2'')]),
        (''reset steps'', 7/10, [(''page'', ''3'')])]"
      "[(''reset steps'', 2, [(''page'', ''7'')])]" 5] k ev
  show ?thesis by blast
qed

text \<open>
  The claim as first stated fails on two documents with the same text on different
  pages, one found by each search: they are fused into one entry, which keeps the
  metadata of the lexical row. With a hash that sends two different contents to the same
  key (Python's \<open>hash\<close> has 64-bit values, so such contents exist; here the length of
  the string stands for it), two documents with different contents are fused too.
\<close>

theorem content_hash_merge_counterexample:
  "reciprocal_rank_fusion (\<lambda>c. c) (7/10) (3/10)
     [(''reset steps'', 9/10, [(''page'', ''1'')])]
     [(''reset steps'', 2, [(''page'', ''7'')])] 5 60
   = Inr [\<lparr>content = ''reset steps'', metadata = [(''page'', ''7'')],
           score = 7/10 * (1/61) + 3/10 * (1/61), source = ''hybrid''\<rparr>]
   \<and> reciprocal_rank_fusion (\<lambda>c. length c) (7/10) (3/10)
     [(''gpu'', 9/10, [(''page'', ''1'')])]
     [(''cpu'', 2, [(''page'', ''2'')])] 5 60
   = Inr [\<lparr>content = ''cpu'', metadata = [(''page'', ''2'')],
           score = 7/10 * (1/61) + 3/10 * (1/61), source = ''hybrid''\<rparr>]"
  by (simp add: eval_defs)

text \<open>
  Claim C8, as amended. With the weights \<open>w_vector = 1\<close> and \<open>w_lexical = 0\<close>, and a vector
  list in which no two entries have the same fusion key, the fused output lists the
  documents of the vector list in the vector list's order, followed by the documents
  that only the lexical list holds (their score is 0) in the lexical list's order, cut
  to \<open>top_k\<close>.
\<close>

theorem vector_only_weights_order:
  assumes "0 \<le> k" "distinct (hit_keys h V)"
  shows "\<exists>rs. reciprocal_rank_fusion h 1 0 V B top_k k = Inr rs \<and>
           map (\<lambda>r. h (content r)) rs =
             slice_to top_k (hit_keys h V @ lexical_only (hit_keys h V) (hit_keys h B))"
proof -
  let ?kv = "hit_keys h V" and ?lo = "lexical_only (hit_keys h V) (hit_keys h B)"
  let ?g = "contribution h 1 k V"
  obtain S C M where
    res: "reciprocal_rank_fusion h 1 0 V B top_k k =
       Inr (map (fused_entry (S, C, M)) (slice_to top_k (sorted_keys S)))"
    and keys: "map fst S = insert_keys [] (hit_keys h V @ hit_keys h B)"
    and val: "\<And>key. dict_get S key 0 = rrf_sum h 1 k 0 V key + rrf_sum h 0 k 0 B key"
    and hkey: "\<And>key. key \<in> set (map fst S) \<Longrightarrow> h (dict_get C key []) = key"
    using rrf_char[OF assms(1), of h 1 0 V B top_k] by metis
  have keys': "map fst S = ?kv @ ?lo"
    using keys assms(2) by (simp add: insert_keys_vector_first)
  have dist: "distinct (map fst S)"
    by (simp add: keys distinct_insert_keys)
  have snd_eq: "snd e = ?g (fst e)" if "e \<in> set S" for e
  proof -
    have "dict_get S (fst e) 0 = snd e"
      using dist that by (intro dict_get_entry) simp_all
    then show ?thesis
      using val[of "fst e"] assms(2) by (simp add: rrf_sum_zero_weight rrf_sum_contribution)
  qed
  have lo_zero: "?g key = 0" if "key \<in> set ?lo" for key
    using that by (simp add: lexical_only_def set_insert_keys contribution_def)
  have "sorted_wrt (\<lambda>a c. ?g c \<le> ?g a) (?kv @ ?lo)"
    unfolding sorted_wrt_append
  proof (intro conjI ballI)
    show "sorted_wrt (\<lambda>a c. ?g c \<le> ?g a) ?kv"
      using assms by (rule contribution_vector_order)
    show "sorted_wrt (\<lambda>a c. ?g c \<le> ?g a) ?lo"
      by (simp add: sorted_wrt_iff_nth_less lo_zero)
    show "?g y \<le> ?g x" if "x \<in> set ?kv" "y \<in> set ?lo" for x y
      using lo_zero[OF that(2)] contribution_nonneg[OF assms(1), of h V x] by simp
  qed
  then have "sorted_wrt (\<lambda>a c. ?g c \<le> ?g a) (map fst S)"
    by (simp only: keys')
  then have "sorted_wrt (\<lambda>a c. ?g (fst c) \<le> ?g (fst a)) S"
    by (simp only: sorted_wrt_map)
  then have "sorted_wrt (\<lambda>a c. snd c \<le> snd a) S"
    by (rule sorted_wrt_mono_rel[rotated]) (simp add: snd_eq)
  then have "sorted_reverse snd S = S"
    by (rule sorted_reverse_id)
  then have sk: "sorted_keys S = ?kv @ ?lo"
    by (simp add: sorted_keys_def keys')
  have "map (\<lambda>r. h (content r)) (map (fused_entry (S, C, M)) (slice_to top_k (sorted_keys S)))
          = map (\<lambda>key. key) (slice_to top_k (sorted_keys S))"
    unfolding map_map
  proof (rule map_cong[OF refl])
    fix key assume "key \<in> set (slice_to top_k (sorted_keys S))"
    then have "key \<in> set (map fst S)"
      using set_slice_to[of top_k "sorted_keys S"] by (auto simp: set_sorted_keys)
    then show "((\<lambda>r. h (content r)) \<circ> fused_entry (S, C, M)) key = key"
      using hkey by (simp add: fused_entry_sel)
  qed
  then show ?thesis using res sk by simp
qed

theorem vector_only_order_witness:
  "(0::int) \<le> 60
   \<and> distinct (hit_keys (\<lambda>c. c) [(''gpu guide'', 9/10, [(''page'', ''1'')]), (''cpu guide'', 8/10, [(''page'', ''4'')])])
   \<and> reciprocal_rank_fusion (\<lambda>c. c) 1 0
         [(''gpu guide'', 9/10, [(''page'', ''1'')]), (''cpu guide'', 8/10, [(''page'', ''4'')])]
         [(''ssd guide'', 2, [(''page'', ''9'')]), (''cpu guide'', 1, [(''page'', ''4'')])] 5 60
       = Inr [\<lparr>content = ''gpu guide'', metadata = [(''page'', ''1'')],
               score = 1 * (1/61), source = ''hybrid''\<rparr>,
              \<lparr>content = ''cpu guide'', metadata = [(''page'', ''4'')],
               score = 1 * (1/62) + 0 * (1/62), source = ''hybrid''\<rparr>,
              \<lparr>content = ''ssd guide'', metadata = [(''page'', ''9'')],
               score = 0 * (1/61), source = ''hybrid''\<rparr>]
   \<and> (\<exists>rs. reciprocal_rank_fusion (\<lambda>c. c) 1 0
         [(''gpu guide'', 9/10, [(''page'', ''1'')]), (''cpu guide'', 8/10, [(''page'', ''4'')])]
         [(''ssd guide'', 2, [(''page'', ''9'')]), (''cpu guide'', 1, [(''page'', ''4'')])] 5 60 = Inr rs
       \<and> map content rs = [''gpu guide'', ''cpu guide'', ''ssd guide''])"
proof -
  have k: "(0::int) \<le> 60" by simp
  have dv: "distinct (hit_keys (\<lambda>c. c) [(''gpu guide'', 9/10, [(''page'', ''1'')]), (''cpu guide'', 8/10, [(''page'', ''4'')])])"
    by (simp add: hit_keys_def)
  have ev: "reciprocal_rank_fusion (\<lambda>c. c) 1 0
         [(''gpu guide'', 9/10, [(''page'', ''1'')]), (''cpu guide'', 8/10, [(''page'', ''4'')])]
         [(''ssd guide'', 2, [(''page'', ''9'')]), (''cpu guide'', 1, [(''page'', ''4'')])] 5 60
       = Inr [\<lparr>content = ''gpu guide'', metadata = [(''page'', ''1'')],
               score = 1 * (1/61), source = ''hybrid''\<rparr>,
              \<lparr>content = ''cpu guide'', metadata = [(''page'', ''4'')],
               score = 1 * (1/62) + 0 * (1/62), source = ''hybrid''\<rparr>,
              \<lparr>content = ''ssd guide'', metadata = [(''page'', ''9'')],
               score = 0 * (1/61), source = ''hybrid''\<rparr>]"
    by (simp add: reciprocal_rank_fusion_def dict_set_def dict_get_def sorted_keys_def
        sorted_reverse_def slice_to_def make_result_def dict_lookup_def Let_def)
  have sl: "slice_to 5 (hit_keys (\<lambda>c. c) [(''gpu guide'', 9/10, [(''page'', ''1'')]), (''cpu guide'', 8/10, [(''page'', ''4'')])]
              @ lexical_only (hit_keys (\<lambda>c. c) [(''gpu guide'', 9/10, [(''page'', ''1'')]), (''cpu guide'', 8/10, [(''page'', ''4'')])])
                  (hit_keys (\<lambda>c. c) [(''ssd guide'', 2, [(''page'', ''9'')]), (''cpu guide'', 1, [(''page'', ''4'')])]))
            = [''gpu guide'', ''cpu guide'', ''ssd guide'']"
    by (simp add: slice_to_def hit_keys_def lexical_only_def)
  from vector_only_weights_order[OF k dv, of
      "[(''ssd guide'', 2, [(''page'', ''9'')]), (''cpu guide'', 1, [(''page'', ''4'')])]" 5]
  have "\<exists>rs. reciprocal_rank_fusion (\<lambda>c. c) 1 0
         [(''gpu guide'', 9/10, [(''page'', ''1'')]), (''cpu guide'', 8/10, [(''page'', ''4'')])]
         [(''ssd guide'', 2, [(''page'', ''9'')]), (''cpu guide'', 1, [(''page'', ''4'')])] 5 60 = Inr rs
       \<and> map content rs = [''gpu guide'', ''cpu guide'', ''ssd guide'']"
    unfolding sl .
  with ev k dv show ?thesis by blast
qed

text \<open>
  The claim as first stated, for every pair of lists, fails where the vector list holds
  the same content twice: the merged entry outranks a document that the vector list
  ranks above both.
\<close>

theorem vector_only_order_counterexample:
  "reciprocal_rank_fusion (\<lambda>c. c) 1 0
     [(''gpu guide'', 9/10, [(''page'', ''1'')]),
      (''reset steps'', 8/10, [(''page'', ''2'')]),
      (''reset steps'', 7/10, [(''page'', ''3'')])]
     [] 5 60
   = Inr [\<lparr>content = ''reset steps'', metadata = [(''page'', ''3'')],
           score = 1 * (1/62) + 1 * (1/63), source = ''hybrid''\<rparr>,
          \<lparr>content = ''gpu guide'', metadata = [(''page'', ''1'')],
           score = 1 * (1/61), source = ''hybrid''\<rparr>]
   \<and> index_of [''gpu guide'', ''reset steps'', ''reset steps''] ''gpu guide''
       < index_of [''gpu guide'', ''reset steps'', ''reset steps''] ''reset steps''
   \<and> index_of [''reset steps'', ''gpu guide''] ''reset steps''
       < index_of [''reset steps'', ''gpu guide''] ''gpu guide''"
  by (simp add: reciprocal_rank_fusion_def dict_set_def dict_get_def sorted_keys_def
      sorted_reverse_def slice_to_def make_result_def dict_lookup_def Let_def)

text \<open>
  Claim C10. The fusion reads the content and the metadata of its input rows and their
  positions, never the raw score they carry: two pairs of lists that agree row by row
  on content and metadata give the same output.
\<close>

theorem fusion_ignores_raw_scores:
  assumes "map (\<lambda>(c, s, m). (c, m)) V = map (\<lambda>(c, s, m). (c, m)) V'"
    and "map (\<lambda>(c, s, m). (c, m)) B = map (\<lambda>(c, s, m). (c, m)) B'"
  shows "reciprocal_rank_fusion h wv wb V B top_k k = reciprocal_rank_fusion h wv wb V' B' top_k k"
  unfolding reciprocal_rank_fusion_def
  by (simp add: score_results_ignores_scores[OF assms(1)]
      score_results_ignores_scores[OF assms(2)] cong: sum.case_cong)

theorem fusion_ignores_raw_scores_witness:
  "map (\<lambda>(c, s, m). (c, m))
       ([(''gpu guide'', 9/10, [(''page'', ''1'')]), (''cpu guide'', 8/10, [(''page'', ''4'')])] :: hit list)
     = map (\<lambda>(c, s, m). (c, m))
       ([(''gpu guide'', 1/10, [(''page'', ''1'')]), (''cpu guide'', 5, [(''page'', ''4'')])] :: hit list)
   \<and> map (\<lambda>(c, s, m). (c, m)) ([(''ssd guide'', 2, [(''page'', ''9'')])] :: hit list)
     = map (\<lambda>(c, s, m). (c, m)) ([(''ssd guide'', -3, [(''page'', ''9'')])] :: hit list)
   \<and> reciprocal_rank_fusion (\<lambda>c. c) (7/10) (3/10)
         [(''gpu guide'', 9/10, [(''page'', ''1'')]), (''cpu guide'', 8/10, [(''page'', ''4'')])]
         [(''ssd guide'', 2, [(''page'', ''9'')])] 5 60
     = reciprocal_rank_fusion (\<lambda>c. c) (7/10) (3/10)
         [(''gpu guide'', 1/10, [(''page'', ''1'')]), (''cpu guide'', 5, [(''page'', ''4'')])]
         [(''ssd guide'', -3, [(''page'', ''9'')])] 5 60"
proof -
  have v: "map (\<lambda>(c, s, m). (c, m))
       ([(''gpu guide'', 9/10, [(''page'', ''1'')]), (''cpu guide'', 8/10, [(''page'', ''4'')])] :: hit list)
     = map (\<lambda>(c, s, m). (c, m))
       ([(''gpu guide'', 1/10, [(''page'', ''1'')]), (''cpu guide'', 5, [(''page'', ''4'')])] :: hit list)"
    by simp
  have b: "map (\<lambda>(c, s, m). (c, m)) ([(''ssd guide'', 2, [(''page'', ''9'')])] :: hit list)
     = map (\<lambda>(c, s, m). (c, m)) ([(''ssd guide'', -3, [(''page'', ''9'')])] :: hit list)"
    by simp
  from fusion_ignores_raw_scores[OF v b, of "\<lambda>c. c" "7/10" "3/10" 5 60] v b show ?thesis
    by blast
qed

section \<open>The search\<close>

text \<open>
  Claim C3, as amended. \<open>search\<close> has no fallback: when the vector search raises,
  \<open>search\<close> raises the same exception, whatever the lexical search found; when the
  vector search succeeds and the lexical search raises, \<open>search\<close> raises that exception.
  When \<open>search\<close> returns, every result carries the source tag \<open>hybrid\<close>.
\<close>

theorem search_propagates_failures:
  "(\<forall>e. vector_search ext query top_k = Inl e \<longrightarrow> fst (search ext self query top_k) = Inl e)
   \<and> (\<forall>vr e. vector_search ext query top_k = Inr vr \<and> fst (bm25_search ext self query top_k) = Inl e
         \<longrightarrow> fst (search ext self query top_k) = Inl e)
   \<and> (\<forall>rs. fst (search ext self query top_k) = Inr rs \<longrightarrow> (\<forall>r\<in>set rs. source r = ''hybrid''))"
proof (intro conjI allI impI)
  fix e assume "vector_search ext query top_k = Inl e"
  then show "fst (search ext self query top_k) = Inl e" by (simp add: search_unfold)
next
  fix vr e
  assume "vector_search ext query top_k = Inr vr \<and> fst (bm25_search ext self query top_k) = Inl e"
  then show "fst (search ext self query top_k) = Inl e" by (simp add: search_unfold)
next
  fix rs assume "fst (search ext self query top_k) = Inr rs"
  then obtain V B where
    "reciprocal_rank_fusion (hash ext) (vector_weight self) (bm25_weight self) V B top_k 60 = Inr rs"
    unfolding search_unfold by (auto split: sum.splits)
  then show "\<forall>r\<in>set rs. source r = ''hybrid''"
    using rrf_source by blast
qed

theorem search_propagates_failures_witness:
  "vector_search vector_down_ext ''gpu'' 5 = Inl (SubsystemError ''vector store unreachable'')
   \<and> fst (search vector_down_ext fresh_engine ''gpu'' 5)
       = Inl (SubsystemError ''vector store unreachable'')
   \<and> vector_search lexical_down_ext ''gpu'' 5
       = Inr [(''GPU fast'', 1 - 1/10, [(''page'', ''1'')]), (''CPU slow'', 1 - 3/10, [(''page'', ''2'')])]
   \<and> fst (bm25_search lexical_down_ext fresh_engine ''gpu'' 5)
       = Inl (SubsystemError ''document store unreachable'')
   \<and> fst (search lexical_down_ext fresh_engine ''gpu'' 5)
       = Inl (SubsystemError ''document store unreachable'')
   \<and> fst (search example_ext fresh_engine ''gpu'' 5)
       = Inr [\<lparr>content = ''GPU fast'', metadata = [(''page'', ''1'')],
               score = 7/10 * (1/61) + 3/10 * (1/61), source = ''hybrid''\<rparr>,
              \<lparr>content = ''CPU slow'', metadata = [(''page'', ''2'')],
               score = 7/10 * (1/62), source = ''hybrid''\<rparr>]
   \<and> list_all (\<lambda>r. source r = ''hybrid'')
         [\<lparr>content = ''GPU fast'', metadata = [(''page'', ''1'')],
               score = 7/10 * (1/61) + 3/10 * (1/61), source = ''hybrid''\<rparr>,
              \<lparr>content = ''CPU slow'', metadata = [(''page'', ''2'')],
               score = 7/10 * (1/62), source = ''hybrid''\<rparr>]"
proof -
  have v: "vector_search vector_down_ext ''gpu'' 5 = Inl (SubsystemError ''vector store unreachable'')"
    by (simp add: vector_search_def)
  have v': "vector_search lexical_down_ext ''gpu'' 5
       = Inr [(''GPU fast'', 1 - 1/10, [(''page'', ''1'')]), (''CPU slow'', 1 - 3/10, [(''page'', ''2'')])]"
    by (simp add: vector_search_def)
  have b': "fst (bm25_search lexical_down_ext fresh_engine ''gpu'' 5)
       = Inl (SubsystemError ''document store unreachable'')"
    by (simp add: bm25_search_def build_bm25_index_def)
  have ok: "fst (search example_ext fresh_engine ''gpu'' 5)
       = Inr [\<lparr>content = ''GPU fast'', metadata = [(''page'', ''1'')],
               score = 7/10 * (1/61) + 3/10 * (1/61), source = ''hybrid''\<rparr>,
              \<lparr>content = ''CPU slow'', metadata = [(''page'', ''2'')],
               score = 7/10 * (1/62), source = ''hybrid''\<rparr>]"
    by (simp add: eval_defs)
  have 1: "fst (search vector_down_ext fresh_engine ''gpu'' 5)
       = Inl (SubsystemError ''vector store unreachable'')"
    using search_propagates_failures[where ext = vector_down_ext and query = "''gpu''" and top_k = 5
        and self = fresh_engine] v by blast
  have 2: "fst (search lexical_down_ext fresh_engine ''gpu'' 5)
       = Inl (SubsystemError ''document store unreachable'')"
    using search_propagates_failures[where ext = lexical_down_ext and query = "''gpu''" and top_k = 5
        and self = fresh_engine] v' b' by blast
  have 3: "list_all (\<lambda>r. source r = ''hybrid'')
         [\<lparr>content = ''GPU fast'', metadata = [(''page'', ''1'')],
               score = 7/10 * (1/61) + 3/10 * (1/61), source = ''hybrid''\<rparr>,
              \<lparr>content = ''CPU slow'', metadata = [(''page'', ''2'')],
               score = 7/10 * (1/62), source = ''hybrid''\<rparr>]"
    using search_propagates_failures[where ext = example_ext and query = "''gpu''" and top_k = 5
        and self = fresh_engine] ok
    unfolding list_all_iff by blast
  from v v' b' ok 1 2 3 show ?thesis by blast
qed

text \<open>
  The claim as first stated fails with a vector store that is unreachable: the lexical
  search has a ranking, and \<open>search\<close> raises.
\<close>

theorem search_failure_counterexample:
  "fst (bm25_search vector_down_ext fresh_engine ''gpu'' 5)
     = Inr [(''GPU fast'', ln 2, [(''page'', ''1'')])]
   \<and> fst (search vector_down_ext fresh_engine ''gpu'' 5)
       = Inl (SubsystemError ''vector store unreachable'')"
  by (simp add: eval_defs)

text \<open>
  Claim C4, as amended. For a query that is empty or made of whitespace only, the
  lexical search returns no result, and \<open>search\<close> returns the fusion of the vector
  search's results alone, or raises the exception of the vector search. This holds when
  \<open>argsort\<close> returns indices of its argument and the lexical index is built or can be
  built.
\<close>

theorem search_blank_query:
  assumes "\<forall>c\<in>set query. is_space c"
    and "\<forall>scores. \<forall>i\<in>set (argsort ext scores). i < length scores"
    and "bm25_index self \<noteq> None \<or> (\<exists>docs. collection_get ext = Inr docs)"
  shows "fst (bm25_search ext self query top_k) = Inr []
         \<and> fst (search ext self query top_k)
             = (case vector_search ext query top_k of
                  Inl e \<Rightarrow> Inl e
                | Inr vector_results \<Rightarrow>
                    reciprocal_rank_fusion (hash ext) (vector_weight self) (bm25_weight self)
                      vector_results [] top_k 60)"
proof -
  have tok: "split (lower query) = []" using assms(1) by (rule no_tokens)
  note ranked = bm25_rank_blank[OF tok assms(2)]
  have "fst (bm25_search ext self query top_k) = Inr []"
  proof (cases "bm25_index self")
    case None
    then obtain docs where "collection_get ext = Inr docs" using assms(3) by auto
    then obtain self' where b: "build_bm25_index ext self = Inr self'"
      by (simp add: build_bm25_index_def Let_def)
    then obtain bm where "bm25_index self' = Some bm"
      using build_fields[OF b] by auto
    then show ?thesis using None b ranked[where bm = bm and s = self' and top_k = top_k]
      by (simp add: bm25_search_def Let_def split: sum.splits)
  next
    case (Some bm)
    then show ?thesis using ranked[where bm = bm and s = self and top_k = top_k]
      by (simp add: bm25_search_def Let_def split: sum.splits)
  qed
  then show ?thesis by (simp add: search_unfold cong: sum.case_cong)
qed

theorem search_blank_query_witness:
  "fst (bm25_search example_ext fresh_engine ''  '' 5) = Inr []
   \<and> fst (search example_ext fresh_engine ''  '' 5)
       = Inr [\<lparr>content = ''GPU fast'', metadata = [(''page'', ''1'')],
               score = 7/10 * (1/61), source = ''hybrid''\<rparr>,
              \<lparr>content = ''CPU slow'', metadata = [(''page'', ''2'')],
               score = 7/10 * (1/62), source = ''hybrid''\<rparr>]"
proof -
  have ws: "\<forall>c\<in>set ''  ''. is_space c" by (simp add: is_space_def)
  have av: "\<forall>scores. \<forall>i\<in>set (argsort example_ext scores). i < length scores" by simp
  have cg: "bm25_index fresh_engine \<noteq> None \<or> (\<exists>docs. collection_get example_ext = Inr docs)"
    by simp
  have fuse: "(case vector_search example_ext ''  '' 5 of
                  Inl e \<Rightarrow> Inl e
                | Inr vector_results \<Rightarrow>
                    reciprocal_rank_fusion (hash example_ext) (vector_weight fresh_engine)
                      (bm25_weight fresh_engine) vector_results [] 5 60)
       = Inr [\<lparr>content = ''GPU fast'', metadata = [(''page'', ''1'')],
               score = 7/10 * (1/61), source = ''hybrid''\<rparr>,
              \<lparr>content = ''CPU slow'', metadata = [(''page'', ''2'')],
               score = 7/10 * (1/62), source = ''hybrid''\<rparr>]"
    by (simp add: eval_defs)
  from search_blank_query[OF ws av cg, where top_k = 5] show ?thesis
    unfolding fuse .
qed

text \<open>
  The claim as first stated fails on the empty query: the vector search still returns
  its nearest documents, and they are the result.
\<close>

theorem blank_query_counterexample:
  "fst (search example_ext fresh_engine [] 5)
     = Inr [\<lparr>content = ''GPU fast'', metadata = [(''page'', ''1'')],
             score = 7/10 * (1/61), source = ''hybrid''\<rparr>,
            \<lparr>content = ''CPU slow'', metadata = [(''page'', ''2'')],
             score = 7/10 * (1/62), source = ''hybrid''\<rparr>]
   \<and> fst (search example_ext fresh_engine [] 5) \<noteq> Inr []"
  by (simp add: eval_defs)

text \<open>
  Claim C7. For every query and every \<open>top_k \<ge> 0\<close>, \<open>search\<close> returns at most \<open>top_k\<close>
  results; when it does not return, it raises an exception of one of its two searches.
\<close>

theorem search_length_bound:
  assumes "0 \<le> top_k"
  shows "case fst (search ext self query top_k) of
           Inl e \<Rightarrow> vector_search ext query top_k = Inl e
                      \<or> fst (bm25_search ext self query top_k) = Inl e
         | Inr rs \<Rightarrow> int (length rs) \<le> top_k"
proof (cases "vector_search ext query top_k")
  case (Inl e)
  then show ?thesis by (simp add: search_unfold)
next
  case V: (Inr V)
  show ?thesis
  proof (cases "fst (bm25_search ext self query top_k)")
    case (Inl e)
    then show ?thesis using V by (simp add: search_unfold)
  next
    case B: (Inr B)
    obtain rs where rs: "reciprocal_rank_fusion (hash ext) (vector_weight self)
        (bm25_weight self) V B top_k 60 = Inr rs"
      using rrf_returns[of 60] by fastforce
    then have "int (length rs) \<le> top_k" using assms by (rule rrf_length)
    then show ?thesis using V B rs by (simp add: search_unfold)
  qed
qed

theorem search_length_bound_witness:
  "(0::int) \<le> 1
   \<and> fst (search example_ext fresh_engine ''slow gpu'' 1)
       = Inr [\<lparr>content = ''GPU fast'', metadata = [(''page'', ''1'')],
               score = 7/10 * (1/61), source = ''hybrid''\<rparr>]
   \<and> int (length [\<lparr>content = ''GPU fast'', metadata = [(''page'', ''1'')],
               score = 7/10 * (1/61), source = ''hybrid''\<rparr>]) \<le> 1"
proof -
  have k: "(0::int) \<le> 1" by simp
  have ev: "fst (search example_ext fresh_engine ''slow gpu'' 1)
       = Inr [\<lparr>content = ''GPU fast'', metadata = [(''page'', ''1'')],
               score = 7/10 * (1/61), source = ''hybrid''\<rparr>]"
    by (simp add: eval_defs)
  from search_length_bound[OF k, where ext = example_ext and self = fresh_engine
      and query = "''slow gpu''"]
  have "int (length [\<lparr>content = ''GPU fast'', metadata = [(''page'', ''1'')],
               score = 7/10 * (1/61), source = ''hybrid''\<rparr>]) \<le> 1"
    unfolding ev by (simp only: sum.case)
  with k ev show ?thesis by blast
qed

text \<open>
  Claim C9. With the same corpus and the same collaborators, a second \<open>search\<close> with the
  same query and \<open>top_k\<close> on the engine that the first call leaves behind returns the
  same outcome and leaves the engine as it is; and so does the lexical search, whose
  ranking carries the scores.
\<close>

theorem search_repeatable:
  "search ext (snd (search ext self query top_k)) query top_k = search ext self query top_k
   \<and> bm25_search ext (snd (bm25_search ext self query top_k)) query top_k
       = bm25_search ext self query top_k"
proof -
  let ?s1 = "snd (bm25_search ext self query top_k)"
  have again: "bm25_search ext ?s1 query top_k = bm25_search ext self query top_k"
    by (rule bm25_search_again)
  have w: "vector_weight ?s1 = vector_weight self" "bm25_weight ?s1 = bm25_weight self"
    using bm25_search_weights[of ext self query top_k] by simp_all
  have "fst (search ext ?s1 query top_k) = fst (search ext self query top_k)"
    unfolding search_unfold again w ..
  moreover have "snd (search ext ?s1 query top_k) = snd (search ext self query top_k)"
    by (simp add: search_state again)
  ultimately have "search ext ?s1 query top_k = search ext self query top_k"
    by (rule prod_eqI)
  then show ?thesis using again by (simp add: search_state)
qed

theorem search_repeatable_witness:
  "search example_ext (snd (search example_ext fresh_engine ''gpu'' 5)) ''gpu'' 5
     = search example_ext fresh_engine ''gpu'' 5
   \<and> fst (search example_ext (snd (search example_ext fresh_engine ''gpu'' 5)) ''gpu'' 5)
     = Inr [\<lparr>content = ''GPU fast'', metadata = [(''page'', ''1'')],
               score = 7/10 * (1/61) + 3/10 * (1/61), source = ''hybrid''\<rparr>,
              \<lparr>content = ''CPU slow'', metadata = [(''page'', ''2'')],
               score = 7/10 * (1/62), source = ''hybrid''\<rparr>]"
proof -
  have ok: "fst (search example_ext fresh_engine ''gpu'' 5)
       = Inr [\<lparr>content = ''GPU fast'', metadata = [(''page'', ''1'')],
               score = 7/10 * (1/61) + 3/10 * (1/61), source = ''hybrid''\<rparr>,
              \<lparr>content = ''CPU slow'', metadata = [(''page'', ''2'')],
               score = 7/10 * (1/62), source = ''hybrid''\<rparr>]"
    by (simp add: eval_defs)
  from search_repeatable[where ext = example_ext and self = fresh_engine and query = "''gpu''"
      and top_k = 5]
  have again: "search example_ext (snd (search example_ext fresh_engine ''gpu'' 5)) ''gpu'' 5
     = search example_ext fresh_engine ''gpu'' 5"
    by (rule conjunct1)
  show ?thesis using again ok by (simp only: simp_thms)
qed

end
